theory Spec2Isabelle
  imports Complex_Main "HOL-Library.Log_Nat" "HOL-Library.AList"
begin

section \<open>Python values\<close>

text \<open>
  The receipt processor works on what \<^verbatim>\<open>json.loads\<close> returns: \<^verbatim>\<open>None\<close>, booleans,
  unbounded integers, binary64 floats, strings, lists and objects with string keys.
  Strings are lists of 8-bit characters: text whose code points are below 256.
\<close>

datatype pyerror = TypeError | ValueError | OverflowError | AttributeError

text \<open>
  A binary64 value: a finite number (its exact rational value; \<open>Fin 0\<close> is \<^verbatim>\<open>0.0\<close>),
  \<^verbatim>\<open>-0.0\<close>, the two infinities, or a NaN with its sign bit (\<open>NaN True\<close> has the bit
  set). The payload of a NaN is not kept: \<^verbatim>\<open>float\<close>, \<^verbatim>\<open>json.loads\<close> and addition make
  only the quiet NaN with an empty payload, of either sign.
\<close>

datatype pyfloat = Fin rat | NegZero | PosInf | NegInf | NaN bool

datatype pyval =
    PNone
  | PBool bool
  | PInt int
  | PFloat pyfloat
  | PStr string
  | PList "pyval list"
  | PDict "(string \<times> pyval) list"

section \<open>binary64 arithmetic\<close>

text \<open>
  \<open>intlog b x\<close> is the number of base-\<open>b\<close> digits of a positive integer \<open>x\<close>, and
  \<open>ilog b a\<close> is \<open>\<lfloor>log\<^sub>b a\<rfloor>\<close> for a positive rational \<open>a\<close>.
\<close>

function intlog :: "int \<Rightarrow> int \<Rightarrow> int" where
  "intlog b x = (if 0 < x \<and> 1 < b then intlog b (x div b) + 1 else 0)"
  by pat_completeness auto
termination
  by (relation "measure (\<lambda>(b, x). nat x)") (simp_all add: int_div_less_self)

declare intlog.simps [simp del]

definition ilog :: "int \<Rightarrow> rat \<Rightarrow> int" where
  "ilog b a =
     (if 1 \<le> a then intlog b \<lfloor>a\<rfloor> - 1
      else - intlog b (\<lceil>1 / a\<rceil> - 1))"

text \<open>\<open>pw b e\<close> is \<open>b\<close> to the power of an integer \<open>e\<close>.\<close>

definition pw :: "int \<Rightarrow> int \<Rightarrow> rat" where
  "pw b e = (if 0 \<le> e then of_int (b ^ nat e) else 1 / of_int (b ^ nat (- e)))"

definition round_half_even :: "rat \<Rightarrow> int" where
  "round_half_even x =
     (let f = \<lfloor>x\<rfloor>; d = x - of_int f
      in if d < 1 / 2 then f
         else if 1 / 2 < d then f + 1
         else if even f then f else f + 1)"

text \<open>
  Rounding a rational to the nearest binary64 value, ties to even: 53 significant bits,
  least exponent \<open>-1074\<close> (subnormals), overflow to an infinity at \<open>2 ^ 1024\<close>, underflow
  to a zero of the same sign.
\<close>

definition dbl_exp :: "rat \<Rightarrow> int" where
  "dbl_exp a = max (ilog 2 a - 52) (- 1074)"

definition dbl_mant :: "rat \<Rightarrow> int" where
  "dbl_mant a = round_half_even (a / pw 2 (dbl_exp a))"

definition dbl_round :: "rat \<Rightarrow> pyfloat" where
  "dbl_round x =
     (if x = 0 then Fin 0
      else let a = \<bar>x\<bar>; m = dbl_mant a; r = of_int m * pw 2 (dbl_exp a)
           in if of_int (2 ^ 1024) \<le> r then (if x < 0 then NegInf else PosInf)
              else if m = 0 then (if x < 0 then NegZero else Fin 0)
              else Fin (sgn x * r))"

text \<open>The finite rationals that are binary64 values are the fixed points of the rounding.\<close>

fun is_double :: "pyfloat \<Rightarrow> bool" where
  "is_double (Fin q) = (dbl_round q = Fin q)"
| "is_double _ = True"

fun fval :: "pyfloat \<Rightarrow> rat" where
  "fval (Fin q) = q"
| "fval _ = 0"

fun is_nan :: "pyfloat \<Rightarrow> bool" where
  "is_nan (NaN _) = True"
| "is_nan _ = False"

text \<open>
  \<^verbatim>\<open>x + y\<close> on floats (IEEE 754, round to nearest). IEEE 754 leaves the sign of a NaN
  result open; this is the addition of x86-64: a NaN operand is the result (the first
  one when both are NaNs), and the sum of the two infinities is the NaN with the sign
  bit set.
\<close>

fun fadd :: "pyfloat \<Rightarrow> pyfloat \<Rightarrow> pyfloat" where
  "fadd (NaN s) _ = NaN s"
| "fadd _ (NaN s) = NaN s"
| "fadd PosInf NegInf = NaN True"
| "fadd NegInf PosInf = NaN True"
| "fadd PosInf _ = PosInf"
| "fadd _ PosInf = PosInf"
| "fadd NegInf _ = NegInf"
| "fadd _ NegInf = NegInf"
| "fadd NegZero NegZero = NegZero"
| "fadd x y = dbl_round (fval x + fval y)"

text \<open>
  The conversion of an integer operand to float (\<^verbatim>\<open>PyLong_AsDouble\<close>): correctly rounded,
  \<^verbatim>\<open>OverflowError\<close> when the integer is too large.
\<close>

definition float_of_int :: "int \<Rightarrow> pyerror + pyfloat" where
  "float_of_int i =
     (case dbl_round (of_int i) of
        PosInf \<Rightarrow> Inl OverflowError
      | NegInf \<Rightarrow> Inl OverflowError
      | f \<Rightarrow> Inr f)"

text \<open>\<^verbatim>\<open>isinstance(v, (int, float))\<close>; \<^verbatim>\<open>bool\<close> is a subclass of \<^verbatim>\<open>int\<close>.\<close>

fun is_number :: "pyval \<Rightarrow> bool" where
  "is_number (PBool _) = True"
| "is_number (PInt _) = True"
| "is_number (PFloat _) = True"
| "is_number _ = False"

text \<open>\<^verbatim>\<open>total + amount\<close> for a float \<^verbatim>\<open>total\<close> and a numeric \<^verbatim>\<open>amount\<close>.\<close>

fun num_add :: "pyfloat \<Rightarrow> pyval \<Rightarrow> pyerror + pyfloat" where
  "num_add t (PFloat f) = Inr (fadd t f)"
| "num_add t (PInt i) =
     (case float_of_int i of Inl e \<Rightarrow> Inl e | Inr f \<Rightarrow> Inr (fadd t f))"
| "num_add t (PBool b) =
     (case float_of_int (if b then 1 else 0) of Inl e \<Rightarrow> Inl e | Inr f \<Rightarrow> Inr (fadd t f))"
| "num_add t _ = Inl TypeError"

section \<open>Text\<close>

text \<open>\<^verbatim>\<open>str.isspace\<close> on one character, for code points below 256.\<close>

definition is_space :: "char \<Rightarrow> bool" where
  "is_space c =
     (let n = (of_char c :: nat)
      in (9 \<le> n \<and> n \<le> 13) \<or> (28 \<le> n \<and> n \<le> 32) \<or> n = 133 \<or> n = 160)"

text \<open>\<^verbatim>\<open>s.strip()\<close>.\<close>

definition py_strip :: "string \<Rightarrow> string" where
  "py_strip s = rev (dropWhile is_space (rev (dropWhile is_space s)))"

text \<open>\<^verbatim>\<open>s.replace(c, "")\<close> for a one-character \<^verbatim>\<open>c\<close>: every occurrence is deleted.\<close>

definition str_delete :: "char \<Rightarrow> string \<Rightarrow> string" where
  "str_delete c s = filter (\<lambda>x. x \<noteq> c) s"

definition is_digit :: "char \<Rightarrow> bool" where
  "is_digit c = (48 \<le> (of_char c :: nat) \<and> (of_char c :: nat) \<le> 57)"

definition digit_val :: "char \<Rightarrow> int" where
  "digit_val c = of_char c - 48"

definition digit_char :: "int \<Rightarrow> char" where
  "digit_char n = char_of (48 + n)"

definition digits_val :: "string \<Rightarrow> int" where
  "digits_val ds = foldl (\<lambda>n c. 10 * n + digit_val c) 0 ds"

text \<open>The decimal digits of a natural number, most significant first.\<close>

function dec_digits :: "int \<Rightarrow> string" where
  "dec_digits n =
     (if n < 10 then [digit_char n] else dec_digits (n div 10) @ [digit_char (n mod 10)])"
  by pat_completeness auto
termination
  by (relation "measure nat") auto

declare dec_digits.simps [simp del]

section \<open>\<^verbatim>\<open>float(s)\<close> on a string\<close>

text \<open>
  CPython's \<^verbatim>\<open>PyFloat_FromString\<close>. Non-ASCII whitespace is first turned into a blank
  (any other non-ASCII character makes the conversion fail: the model leaves it in
  place, where the grammar below rejects it).
\<close>

definition float_blank :: "char \<Rightarrow> char" where
  "float_blank c = (if (of_char c :: nat) = 133 \<or> (of_char c :: nat) = 160 then CHR '' '' else c)"

text \<open>
  \<^verbatim>\<open>_Py_string_to_number_with_underscores\<close>: an underscore is allowed only between two
  digits, and is dropped. The first argument is the previous character.
\<close>

fun drop_underscores :: "char \<Rightarrow> string \<Rightarrow> string option" where
  "drop_underscores prev [] = (if prev = CHR ''_'' then None else Some [])"
| "drop_underscores prev (p # ps) =
     (if p = CHR ''_'' then
        (if is_digit prev then drop_underscores p ps else None)
      else if prev = CHR ''_'' \<and> \<not> is_digit p then None
      else map_option ((#) p) (drop_underscores p ps))"

text \<open>\<^verbatim>\<open>Py_ISSPACE\<close>: the ASCII whitespace that \<^verbatim>\<open>float_from_string_inner\<close> strips.\<close>

definition is_ascii_space :: "char \<Rightarrow> bool" where
  "is_ascii_space c = (let n = (of_char c :: nat) in (9 \<le> n \<and> n \<le> 13) \<or> n = 32)"

definition float_strip :: "string \<Rightarrow> string" where
  "float_strip s = rev (dropWhile is_ascii_space (rev (dropWhile is_ascii_space s)))"

fun split_sign :: "string \<Rightarrow> bool \<times> string" where
  "split_sign [] = (False, [])"
| "split_sign (c # cs) =
     (if c = CHR ''-'' then (True, cs)
      else if c = CHR ''+'' then (False, cs)
      else (False, c # cs))"

text \<open>The float denoted by sign, decimal digits \<open>m\<close> and decimal exponent \<open>k\<close>.\<close>

definition dec_to_float :: "bool \<Rightarrow> int \<Rightarrow> int \<Rightarrow> pyfloat" where
  "dec_to_float neg m k =
     (if m = 0 then (if neg then NegZero else Fin 0)
      else dbl_round ((if neg then - 1 else 1) * of_int m * pw 10 k))"

text \<open>
  The exponent part: \<^verbatim>\<open>e\<close> or \<^verbatim>\<open>E\<close>, an optional sign and at least one digit. Without a
  digit the exponent is not consumed.
\<close>

definition parse_exponent :: "string \<Rightarrow> int \<times> string" where
  "parse_exponent s =
     (case s of
        [] \<Rightarrow> (0, s)
      | c # t \<Rightarrow>
          if c = CHR ''e'' \<or> c = CHR ''E'' then
            (let (eneg, t1) = split_sign t; ed = takeWhile is_digit t1
             in if ed = [] then (0, s)
                else ((if eneg then - digits_val ed else digits_val ed),
                      dropWhile is_digit t1))
          else (0, s))"

text \<open>
  \<^verbatim>\<open>_Py_dg_strtod\<close>: the longest prefix that is a decimal number, and what follows it;
  \<open>None\<close> when there is no digit.
\<close>

definition parse_decimal :: "string \<Rightarrow> (pyfloat \<times> string) option" where
  "parse_decimal s =
     (let (neg, s1) = split_sign s;
          ip = takeWhile is_digit s1;
          r1 = dropWhile is_digit s1;
          (fp, r2) = (case r1 of
                        [] \<Rightarrow> ([], r1)
                      | c # t \<Rightarrow> if c = CHR ''.'' then (takeWhile is_digit t, dropWhile is_digit t)
                                 else ([], r1))
      in if ip = [] \<and> fp = [] then None
         else (let (ex, r3) = parse_exponent r2
               in Some (dec_to_float neg (digits_val (ip @ fp)) (ex - int (length fp)), r3)))"

definition to_lower :: "char \<Rightarrow> char" where
  "to_lower c =
     (if 65 \<le> (of_char c :: nat) \<and> (of_char c :: nat) \<le> 90 then char_of ((of_char c :: nat) + 32)
      else c)"

definition ci_match :: "string \<Rightarrow> string \<Rightarrow> bool" where
  "ci_match s t = (map to_lower (take (length t) s) = t)"

text \<open>\<^verbatim>\<open>_Py_parse_inf_or_nan\<close>.\<close>

definition parse_inf_or_nan :: "string \<Rightarrow> (pyfloat \<times> string) option" where
  "parse_inf_or_nan s =
     (let (neg, s1) = split_sign s
      in if ci_match s1 ''inf'' then
           (let r = drop 3 s1
            in Some (if neg then NegInf else PosInf, if ci_match r ''inity'' then drop 5 r else r))
         else if ci_match s1 ''nan'' then Some (NaN neg, drop 3 s1)
         else None)"

text \<open>
  \<^verbatim>\<open>PyOS_string_to_double\<close> with the check that the whole text was consumed: \<open>None\<close> is
  \<^verbatim>\<open>ValueError\<close>. The inf/nan parser is tried only when the number parser consumed nothing.
\<close>

definition parse_float :: "string \<Rightarrow> pyfloat option" where
  "parse_float s =
     (case parse_decimal s of
        Some (v, rest) \<Rightarrow> if rest = [] then Some v else None
      | None \<Rightarrow>
          (case parse_inf_or_nan s of
             Some (v, rest) \<Rightarrow> if rest = [] then Some v else None
           | None \<Rightarrow> None))"

text \<open>\<^verbatim>\<open>float(s)\<close> for a string \<^verbatim>\<open>s\<close>; \<open>None\<close> is \<^verbatim>\<open>ValueError\<close>, the only error it raises.\<close>

definition float_of_str :: "string \<Rightarrow> pyfloat option" where
  "float_of_str s =
     (case drop_underscores (CHR 0x00) (map float_blank s) of
        None \<Rightarrow> None
      | Some t \<Rightarrow> parse_float (float_strip t))"

section \<open>\<^verbatim>\<open>str(v)\<close> and \<^verbatim>\<open>repr(v)\<close>\<close>

text \<open>
  \<^verbatim>\<open>str\<close> of an integer. (CPython from 3.11 on refuses to print an integer of more than
  4300 digits; \<^verbatim>\<open>json.loads\<close> refuses to read one, and the limit is left out.)
\<close>

definition int_str :: "int \<Rightarrow> string" where
  "int_str i = (if i < 0 then CHR ''-'' # dec_digits (- i) else dec_digits i)"

text \<open>
  \<^verbatim>\<open>repr\<close> of a float prints the shortest decimal digit string that reads back as the
  same float (\<^verbatim>\<open>_Py_dg_dtoa\<close>, mode 0); of two strings of that length, the one nearer
  to the exact value. \<open>digits_at a k n\<close> tries \<open>n\<close> significant digits for a value
  \<open>a\<close> with \<open>10 ^ k \<le> a < 10 ^ (k + 1)\<close>: the candidates are the two \<open>n\<close>-digit
  decimals around \<open>a\<close>.
\<close>

definition reads_back :: "rat \<Rightarrow> int \<Rightarrow> int \<Rightarrow> bool" where
  "reads_back a c e = (dbl_round (of_int c * pw 10 e) = Fin a)"

definition digits_at :: "rat \<Rightarrow> int \<Rightarrow> nat \<Rightarrow> int option" where
  "digits_at a k n =
     (let e = k + 1 - int n;
          s = a / pw 10 e;
          lo = \<lfloor>s\<rfloor>;
          hi = lo + 1;
          lo_ok = reads_back a lo e;
          hi_ok = reads_back a hi e
      in if lo_ok \<and> hi_ok then Some (round_half_even s)
         else if lo_ok then Some lo
         else if hi_ok then Some hi
         else None)"

fun first_digits :: "rat \<Rightarrow> int \<Rightarrow> nat list \<Rightarrow> (int \<times> int) option" where
  "first_digits a k [] = None"
| "first_digits a k (n # ns) =
     (case digits_at a k n of
        Some c \<Rightarrow> Some (c, k + 1 - int n)
      | None \<Rightarrow> first_digits a k ns)"

text \<open>The exact decimal expansion of a binary64 value \<open>a = m * 2 ^ e\<close>.\<close>

definition exact_dec :: "rat \<Rightarrow> int \<times> int" where
  "exact_dec a =
     (let e = dbl_exp a; m = dbl_mant a
      in if 0 \<le> e then (m * 2 ^ nat e, 0) else (m * 5 ^ nat (- e), e))"

text \<open>
  The digits \<open>c\<close> and the decimal exponent \<open>e\<close> that \<^verbatim>\<open>repr\<close> prints for a positive
  binary64 value: \<open>c * 10 ^ e\<close> reads back as \<open>a\<close>. CPython never needs more than
  seventeen significant digits; nothing below relies on that: where no candidate of at
  most seventeen digits reads back, the exact decimal expansion is taken.
\<close>

definition shortest_dec :: "rat \<Rightarrow> int \<times> int" where
  "shortest_dec a =
     (case first_digits a (ilog 10 a) [1..<18] of
        Some ce \<Rightarrow> ce
      | None \<Rightarrow> exact_dec a)"

definition strip_zeros :: "string \<Rightarrow> string" where
  "strip_zeros ds = rev (dropWhile (\<lambda>c. c = CHR ''0'') (rev ds))"

definition zeros :: "int \<Rightarrow> string" where
  "zeros n = replicate (nat n) (CHR ''0'')"

text \<open>\<^verbatim>\<open>sprintf("%+.02d", exp)\<close>.\<close>

definition exp_str :: "int \<Rightarrow> string" where
  "exp_str x =
     (let ds = dec_digits \<bar>x\<bar>
      in (if x < 0 then CHR ''-'' else CHR ''+'') # (if length ds < 2 then CHR ''0'' # ds else ds))"

text \<open>
  \<^verbatim>\<open>format_float_short\<close> with format code \<^verbatim>\<open>'r'\<close> and \<^verbatim>\<open>Py_DTSF_ADD_DOT_0\<close>: the digits
  \<open>ds\<close> with the decimal point after the first \<open>decpt\<close> of them; exponent notation when
  \<open>decpt \<le> -4\<close> or \<open>decpt > 16\<close>.
\<close>

definition format_repr :: "string \<Rightarrow> int \<Rightarrow> string" where
  "format_repr ds decpt0 =
     (let len = int (length ds);
          use_exp = (decpt0 \<le> - 4 \<or> 16 < decpt0);
          exp = decpt0 - 1;
          decpt = (if use_exp then 1 else decpt0);
          vdigits_start = (if decpt \<le> 0 then decpt - 1 else 0);
          vdigits_end = (if \<not> use_exp then max len (decpt + 1) else max len decpt);
          p1 = (if decpt \<le> 0 then zeros (decpt - vdigits_start) @ ''.'' @ zeros (0 - decpt)
                else zeros (0 - vdigits_start));
          p2 = (if 0 < decpt \<and> decpt \<le> len then take (nat decpt) ds @ ''.'' @ drop (nat decpt) ds
                else ds);
          p3 = (if len < decpt then zeros (decpt - len) @ ''.'' @ zeros (vdigits_end - decpt)
                else zeros (vdigits_end - len));
          body = p1 @ p2 @ p3;
          body' = (if body \<noteq> [] \<and> last body = CHR ''.'' then butlast body else body)
      in if use_exp then body' @ ''e'' @ exp_str exp else body')"

definition float_repr :: "pyfloat \<Rightarrow> string" where
  "float_repr x =
     (case x of
        NaN s \<Rightarrow> ''nan''
      | PosInf \<Rightarrow> ''inf''
      | NegInf \<Rightarrow> ''-inf''
      | NegZero \<Rightarrow> ''-'' @ format_repr ''0'' 1
      | Fin q \<Rightarrow>
          if q = 0 then format_repr ''0'' 1
          else (let (c, e) = shortest_dec \<bar>q\<bar>; ds = dec_digits c
                in (if q < 0 then ''-'' else []) @
                   format_repr (strip_zeros ds) (int (length ds) + e)))"

text \<open>\<^verbatim>\<open>repr\<close> of a string whose code points are below 256.\<close>

definition hex_digit :: "nat \<Rightarrow> char" where
  "hex_digit n = (if n < 10 then char_of (48 + n) else char_of (87 + n))"

definition is_printable :: "char \<Rightarrow> bool" where
  "is_printable c =
     (let n = (of_char c :: nat)
      in (32 \<le> n \<and> n < 127) \<or> (161 \<le> n \<and> n \<noteq> 173))"

definition repr_char :: "char \<Rightarrow> char \<Rightarrow> string" where
  "repr_char quote c =
     (if c = quote \<or> c = CHR 0x5C then [CHR 0x5C, c]
      else if c = CHR 0x09 then [CHR 0x5C, CHR ''t'']
      else if c = CHR 0x0A then [CHR 0x5C, CHR ''n'']
      else if c = CHR 0x0D then [CHR 0x5C, CHR ''r'']
      else if is_printable c then [c]
      else [CHR 0x5C, CHR ''x'', hex_digit (of_char c div 16), hex_digit (of_char c mod 16)])"

definition str_repr :: "string \<Rightarrow> string" where
  "str_repr s =
     (let quote = (if CHR 0x27 \<in> set s \<and> CHR 0x22 \<notin> set s then CHR 0x22 else CHR 0x27)
      in [quote] @ concat (map (repr_char quote) s) @ [quote])"

fun join :: "string \<Rightarrow> string list \<Rightarrow> string" where
  "join sep [] = []"
| "join sep [x] = x"
| "join sep (x # y # ys) = x @ sep @ join sep (y # ys)"

primrec py_repr :: "pyval \<Rightarrow> string" where
  "py_repr PNone = ''None''"
| "py_repr (PBool b) = (if b then ''True'' else ''False'')"
| "py_repr (PInt i) = int_str i"
| "py_repr (PFloat f) = float_repr f"
| "py_repr (PStr s) = str_repr s"
| "py_repr (PList xs) = ''['' @ join '', '' (map py_repr xs) @ '']''"
| "py_repr (PDict kvs) =
     ''{'' @ join '', '' (map (\<lambda>kv. str_repr (fst kv) @ '': '' @ snd kv)
                           (map (map_prod id py_repr) kvs)) @ ''}''"

definition py_str :: "pyval \<Rightarrow> string" where
  "py_str v = (case v of PStr s \<Rightarrow> s | _ \<Rightarrow> py_repr v)"

section \<open>The Normalizer\<close>

text \<open>
  \<^verbatim>\<open>sanitize_amount(amount)\<close> (main.py, lines 11 to 31): \<^verbatim>\<open>None\<close> stays \<^verbatim>\<open>None\<close>; any other
  value is printed, every \<^verbatim>\<open>$\<close> is deleted, surrounding whitespace is stripped, and
  the text is converted with \<^verbatim>\<open>float\<close>; a \<^verbatim>\<open>ValueError\<close> gives \<^verbatim>\<open>None\<close>.
\<close>

definition sanitize_amount :: "pyval \<Rightarrow> pyval" where
  "sanitize_amount amount =
     (if amount = PNone then PNone
      else (let cleaned = py_strip (str_delete (CHR ''$'') (py_str amount))
            in case float_of_str cleaned of
                 Some f \<Rightarrow> PFloat f
               | None \<Rightarrow> PNone))"

section \<open>Receipt records and the collection\<close>

text \<open>
  A receipt record is the JSON object of one file, a collection maps file names to
  records; both are Python dictionaries, kept in insertion order.
\<close>

type_synonym receipt = "(string \<times> pyval) list"

type_synonym collection = "(string \<times> receipt) list"

text \<open>\<^verbatim>\<open>d.get(k, default)\<close>.\<close>

definition dict_get :: "receipt \<Rightarrow> string \<Rightarrow> pyval \<Rightarrow> pyval" where
  "dict_get d k dflt = (case map_of d k of None \<Rightarrow> dflt | Some v \<Rightarrow> v)"

text \<open>
  \<^verbatim>\<open>process_directory(dirpath)\<close> (main.py, lines 34 to 50). Listing the directory,
  encoding a file and calling the extraction service are outside the program: the
  argument is, for each file that \<^verbatim>\<open>list_files\<close> yields, its name and what
  \<^verbatim>\<open>extract_receipt_info\<close> did for it (an error raised, or the decoded JSON value).
  An error ends the run; \<^verbatim>\<open>data.get\<close> on a value that is not an object raises
  \<^verbatim>\<open>AttributeError\<close>.
\<close>

definition process_file ::
  "collection \<Rightarrow> string \<times> (pyerror + pyval) \<Rightarrow> pyerror + collection" where
  "process_file results f =
     (case snd f of
        Inl e \<Rightarrow> Inl e
      | Inr (PDict data) \<Rightarrow>
          Inr (AList.update (fst f)
                 (AList.update ''amount'' (sanitize_amount (dict_get data ''amount'' PNone)) data)
                 results)
      | Inr _ \<Rightarrow> Inl AttributeError)"

fun process_files ::
  "collection \<Rightarrow> (string \<times> (pyerror + pyval)) list \<Rightarrow> pyerror + collection" where
  "process_files results [] = Inr results"
| "process_files results (f # fs) =
     (case process_file results f of
        Inl e \<Rightarrow> Inl e
      | Inr results' \<Rightarrow> process_files results' fs)"

definition process_directory :: "(string \<times> (pyerror + pyval)) list \<Rightarrow> pyerror + collection" where
  "process_directory files = process_files [] files"

section \<open>Dates\<close>

text \<open>
  A \<^verbatim>\<open>datetime\<close> made by \<^verbatim>\<open>strptime\<close> with the format \<^verbatim>\<open>%Y-%m-%d\<close>: year, month and day
  (the time of day is midnight, and there is no time zone).
\<close>

datatype datetime = Datetime int int int

fun dt_less :: "datetime \<Rightarrow> datetime \<Rightarrow> bool" where
  "dt_less (Datetime y1 m1 d1) (Datetime y2 m2 d2) =
     (y1 < y2 \<or> (y1 = y2 \<and> (m1 < m2 \<or> (m1 = m2 \<and> d1 < d2))))"

definition is_leap :: "int \<Rightarrow> bool" where
  "is_leap y = (y mod 4 = 0 \<and> (y mod 100 \<noteq> 0 \<or> y mod 400 = 0))"

definition days_in_month :: "int \<Rightarrow> int \<Rightarrow> int" where
  "days_in_month y m =
     (if m = 2 then (if is_leap y then 29 else 28)
      else if m = 4 \<or> m = 6 \<or> m = 9 \<or> m = 11 then 30
      else 31)"

text \<open>The constructor \<^verbatim>\<open>datetime(y, m, d)\<close>: \<open>None\<close> is its \<^verbatim>\<open>ValueError\<close>.\<close>

definition make_datetime :: "int \<Rightarrow> int \<Rightarrow> int \<Rightarrow> datetime option" where
  "make_datetime y m d =
     (if 1 \<le> y \<and> y \<le> 9999 \<and> 1 \<le> m \<and> m \<le> 12 \<and> 1 \<le> d \<and> d \<le> days_in_month y m
      then Some (Datetime y m d) else None)"

definition char_in :: "char \<Rightarrow> char \<Rightarrow> char \<Rightarrow> bool" where
  "char_in lo hi c = ((of_char lo :: nat) \<le> of_char c \<and> (of_char c :: nat) \<le> of_char hi)"

text \<open>
  \<^verbatim>\<open>_strptime\<close> turns the format into the regular expression
  \<^verbatim>\<open>(?P<Y>\d\d\d\d)-(?P<m>1[0-2]|0[1-9]|[1-9])-(?P<d>3[0-1]|[1-2]\d|0[1-9]|[1-9]| [1-9])\<close>
  and matches it at the start of the text. Each function below gives the matches of
  one group in the order in which the alternatives are tried, with the rest of the text.
\<close>

definition re_year :: "string \<Rightarrow> (int \<times> string) list" where
  "re_year s =
     (case s of
        a # b # c # d # r \<Rightarrow>
          if is_digit a \<and> is_digit b \<and> is_digit c \<and> is_digit d
          then [(digits_val [a, b, c, d], r)] else []
      | _ \<Rightarrow> [])"

definition re_two :: "(char \<Rightarrow> bool) \<Rightarrow> (char \<Rightarrow> bool) \<Rightarrow> string \<Rightarrow> (int \<times> string) list" where
  "re_two p q s =
     (case s of
        a # b # r \<Rightarrow> if p a \<and> q b then [(digits_val (filter is_digit [a, b]), r)] else []
      | _ \<Rightarrow> [])"

definition re_one :: "(char \<Rightarrow> bool) \<Rightarrow> string \<Rightarrow> (int \<times> string) list" where
  "re_one p s = (case s of a # r \<Rightarrow> if p a then [(digits_val [a], r)] else [] | _ \<Rightarrow> [])"

definition re_month :: "string \<Rightarrow> (int \<times> string) list" where
  "re_month s =
     re_two (\<lambda>c. c = CHR ''1'') (char_in (CHR ''0'') (CHR ''2'')) s @
     re_two (\<lambda>c. c = CHR ''0'') (char_in (CHR ''1'') (CHR ''9'')) s @
     re_one (char_in (CHR ''1'') (CHR ''9'')) s"

definition re_day :: "string \<Rightarrow> (int \<times> string) list" where
  "re_day s =
     re_two (\<lambda>c. c = CHR ''3'') (char_in (CHR ''0'') (CHR ''1'')) s @
     re_two (char_in (CHR ''1'') (CHR ''2'')) is_digit s @
     re_two (\<lambda>c. c = CHR ''0'') (char_in (CHR ''1'') (CHR ''9'')) s @
     re_one (char_in (CHR ''1'') (CHR ''9'')) s @
     re_two (\<lambda>c. c = CHR '' '') (char_in (CHR ''1'') (CHR ''9'')) s"

definition re_dash :: "string \<Rightarrow> string list" where
  "re_dash s = (case s of c # r \<Rightarrow> if c = CHR ''-'' then [r] else [] | _ \<Rightarrow> [])"

text \<open>All matches of the whole expression, first the one that \<^verbatim>\<open>re.match\<close> returns.\<close>

definition re_ymd :: "string \<Rightarrow> ((int \<times> int \<times> int) \<times> string) list" where
  "re_ymd s =
     concat (map (\<lambda>(y, r0). concat (map (\<lambda>r1. concat (map (\<lambda>(m, r2).
       concat (map (\<lambda>r3. map (\<lambda>(d, r4). ((y, m, d), r4)) (re_day r3)) (re_dash r2)))
       (re_month r1))) (re_dash r0))) (re_year s))"

text \<open>
  \<^verbatim>\<open>datetime.strptime(s, "%Y-%m-%d")\<close> on a string: \<open>None\<close> is \<^verbatim>\<open>ValueError\<close> (no match,
  unconverted data after the match, or no such day).
\<close>

definition strptime_ymd :: "string \<Rightarrow> datetime option" where
  "strptime_ymd s =
     (case re_ymd s of
        [] \<Rightarrow> None
      | ((y, m, d), rest) # _ \<Rightarrow> if rest \<noteq> [] then None else make_datetime y m d)"

text \<open>
  \<^verbatim>\<open>parse_date(date_str)\<close> (main.py, lines 53 to 65): \<^verbatim>\<open>strptime\<close> raises \<^verbatim>\<open>TypeError\<close> for
  an argument that is not a string; both errors are caught and give \<^verbatim>\<open>None\<close>.
\<close>

definition parse_date :: "pyval \<Rightarrow> datetime option" where
  "parse_date date_str = (case date_str of PStr s \<Rightarrow> strptime_ymd s | _ \<Rightarrow> None)"

section \<open>The Aggregator\<close>

text \<open>The body of the loop of \<^verbatim>\<open>calculate_expenses\<close> (main.py, lines 86 to 100).\<close>

definition expense_step :: "datetime \<Rightarrow> datetime \<Rightarrow> pyfloat \<Rightarrow> receipt \<Rightarrow> pyerror + pyfloat" where
  "expense_step start stop tot receipt =
     (let receipt_date = parse_date (dict_get receipt ''date'' PNone);
          amount = dict_get receipt ''amount'' PNone
      in case receipt_date of
           None \<Rightarrow> Inr tot
         | Some rd \<Rightarrow>
             if dt_less rd start \<or> dt_less stop rd then Inr tot
             else if amount = PNone \<or> \<not> is_number amount then Inr tot
             else num_add tot amount)"

fun expense_loop :: "datetime \<Rightarrow> datetime \<Rightarrow> pyfloat \<Rightarrow> receipt list \<Rightarrow> pyerror + pyfloat" where
  "expense_loop start stop tot [] = Inr tot"
| "expense_loop start stop tot (r # rs) =
     (case expense_step start stop tot r of
        Inl e \<Rightarrow> Inl e
      | Inr tot' \<Rightarrow> expense_loop start stop tot' rs)"

text \<open>\<^verbatim>\<open>calculate_expenses(data, start_date, end_date)\<close> (main.py, lines 68 to 102).\<close>

definition calculate_expenses :: "collection \<Rightarrow> pyval \<Rightarrow> pyval \<Rightarrow> pyerror + pyfloat" where
  "calculate_expenses data start_date end_date =
     (case parse_date start_date of
        None \<Rightarrow> Inr (Fin 0)
      | Some start \<Rightarrow>
          (case parse_date end_date of
             None \<Rightarrow> Inr (Fin 0)
           | Some stop \<Rightarrow> expense_loop start stop (Fin 0) (map snd data)))"

text \<open>
  The dictionary \<^verbatim>\<open>totals\<close> has Python values as keys. A list or an object is not
  hashable. Two keys are the same entry when they are the same object or are equal in
  Python: numbers (booleans, integers, floats) by their value, strings and \<^verbatim>\<open>None\<close> as
  themselves. A NaN equals no number, itself included, but a dictionary finds a key by
  identity before it compares, and \<^verbatim>\<open>json.loads\<close> returns one and the same object for
  every NaN it reads: a NaN key is the entry of that NaN. Values stand for objects here,
  so two NaNs are one key when they have the same sign.
\<close>

fun hashable :: "pyval \<Rightarrow> bool" where
  "hashable (PList _) = False"
| "hashable (PDict _) = False"
| "hashable _ = True"

fun key_num :: "pyval \<Rightarrow> pyfloat option" where
  "key_num (PBool b) = Some (Fin (if b then 1 else 0))"
| "key_num (PInt i) = Some (Fin (of_int i))"
| "key_num (PFloat (NaN _)) = None"
| "key_num (PFloat NegZero) = Some (Fin 0)"
| "key_num (PFloat f) = Some f"
| "key_num _ = None"

fun key_eq :: "pyval \<Rightarrow> pyval \<Rightarrow> bool" where
  "key_eq PNone PNone = True"
| "key_eq (PStr a) (PStr b) = (a = b)"
| "key_eq (PFloat (NaN a)) (PFloat (NaN b)) = (a = b)"
| "key_eq a b = (case (key_num a, key_num b) of (Some x, Some y) \<Rightarrow> x = y | _ \<Rightarrow> False)"

type_synonym totals = "(pyval \<times> pyfloat) list"

text \<open>The position of the entry of a key, if there is one.\<close>

fun totals_slot :: "totals \<Rightarrow> pyval \<Rightarrow> nat option" where
  "totals_slot [] k = None"
| "totals_slot (p # ps) k =
     (if key_eq (fst p) k then Some 0 else map_option Suc (totals_slot ps k))"

text \<open>
  The body of the loop of \<^verbatim>\<open>aggregate_by_category\<close> (main.py, lines 116 to 124).
  \<^verbatim>\<open>category not in totals\<close> raises \<^verbatim>\<open>TypeError\<close> for a category that is not hashable. A
  new category gets an entry with \<^verbatim>\<open>0.0\<close> at the end of the dictionary; then the entry of
  the category (the one found, or the one just made) is increased by the amount.
\<close>

definition aggregate_step :: "totals \<Rightarrow> receipt \<Rightarrow> pyerror + totals" where
  "aggregate_step totals receipt =
     (let category = dict_get receipt ''category'' (PStr ''Other'');
          amount = dict_get receipt ''amount'' PNone
      in if amount = PNone \<or> \<not> is_number amount then Inr totals
         else if \<not> hashable category then Inl TypeError
         else (let (totals1, i) =
                     (case totals_slot totals category of
                        None \<Rightarrow> (totals @ [(category, Fin 0)], length totals)
                      | Some i \<Rightarrow> (totals, i))
               in case num_add (snd (totals1 ! i)) amount of
                    Inl e \<Rightarrow> Inl e
                  | Inr v \<Rightarrow> Inr (totals1[i := (fst (totals1 ! i), v)])))"

fun aggregate_loop :: "totals \<Rightarrow> receipt list \<Rightarrow> pyerror + totals" where
  "aggregate_loop totals [] = Inr totals"
| "aggregate_loop totals (r # rs) =
     (case aggregate_step totals r of
        Inl e \<Rightarrow> Inl e
      | Inr totals' \<Rightarrow> aggregate_loop totals' rs)"

text \<open>\<^verbatim>\<open>aggregate_by_category(data)\<close> (main.py, lines 105 to 126).\<close>

definition aggregate_by_category :: "collection \<Rightarrow> pyerror + totals" where
  "aggregate_by_category data = aggregate_loop [] (map snd data)"

text \<open>\<^verbatim>\<open>totals.get(k)\<close> on the result.\<close>

definition totals_get :: "totals \<Rightarrow> pyval \<Rightarrow> pyfloat option" where
  "totals_get t k = map_option (\<lambda>i. snd (t ! i)) (totals_slot t k)"

definition bucket :: "totals \<Rightarrow> pyval \<Rightarrow> pyfloat" where
  "bucket t k = (case totals_get t k of None \<Rightarrow> Fin 0 | Some v \<Rightarrow> v)"

section \<open>The specification's wording\<close>

text \<open>
  The specification describes the text transformation of the Normalizer as: strip a
  leading \<^verbatim>\<open>$\<close> if present, then strip surrounding whitespace.
\<close>

definition spec_clean :: "string \<Rightarrow> string" where
  "spec_clean s = py_strip (case s of [] \<Rightarrow> [] | c # r \<Rightarrow> if c = CHR ''$'' then r else s)"

text \<open>
  The specification describes the range total as the sum, in the order of the
  collection, of the amounts of the records that have a numeric amount and a date
  \<open>d\<close> with \<open>start \<le> d \<le> end\<close>.
\<close>

definition dt_le :: "datetime \<Rightarrow> datetime \<Rightarrow> bool" where
  "dt_le a b = (a = b \<or> dt_less a b)"

definition has_amount :: "receipt \<Rightarrow> bool" where
  "has_amount r =
     (dict_get r ''amount'' PNone \<noteq> PNone \<and> is_number (dict_get r ''amount'' PNone))"

definition in_range :: "datetime \<Rightarrow> datetime \<Rightarrow> receipt \<Rightarrow> bool" where
  "in_range start stop r =
     (case parse_date (dict_get r ''date'' PNone) of
        None \<Rightarrow> False
      | Some d \<Rightarrow> dt_le start d \<and> dt_le d stop)"

fun sum_amounts :: "pyfloat \<Rightarrow> receipt list \<Rightarrow> pyerror + pyfloat" where
  "sum_amounts tot [] = Inr tot"
| "sum_amounts tot (r # rs) =
     (case num_add tot (dict_get r ''amount'' PNone) of
        Inl e \<Rightarrow> Inl e
      | Inr tot' \<Rightarrow> sum_amounts tot' rs)"

definition range_total :: "collection \<Rightarrow> datetime \<Rightarrow> datetime \<Rightarrow> pyerror + pyfloat" where
  "range_total data start stop =
     sum_amounts (Fin 0) (filter (\<lambda>r. in_range start stop r \<and> has_amount r) (map snd data))"

text \<open>The example collection of the specification, with the amount of \<open>b\<close> normalized.\<close>

definition example_data :: collection where
  "example_data =
     [(''a'', [(''date'', PStr ''2024-02-01''), (''amount'', PFloat (Fin 10)),
               (''category'', PStr ''Meals'')]),
      (''b'', [(''date'', PStr ''2024-02-15''), (''amount'', sanitize_amount (PStr ''$5'')),
               (''category'', PStr ''Meals'')]),
      (''c'', [(''date'', PStr ''2024-03-01''), (''amount'', PNone),
               (''category'', PStr ''Other'')])]"

section \<open>Normalized records and example collections\<close>

text \<open>A record is normalized when its amount field is present and is \<^verbatim>\<open>None\<close> or a float.\<close>

fun is_float :: "pyval \<Rightarrow> bool" where
  "is_float (PFloat _) = True"
| "is_float _ = False"

definition normalized :: "receipt \<Rightarrow> bool" where
  "normalized r =
     (case map_of r ''amount'' of None \<Rightarrow> False | Some v \<Rightarrow> v = PNone \<or> is_float v)"

text \<open>Collections and extraction results used as concrete inputs below.\<close>

definition range_data :: collection where
  "range_data =
     [(''jan'', [(''date'', PStr ''2024-01-01''), (''amount'', PFloat (Fin 1))]),
      (''feb'', [(''date'', PStr ''2024-02-01''), (''amount'', PFloat (Fin 2))]),
      (''mar'', [(''date'', PStr ''2024-03-01''), (''amount'', PFloat (Fin 4))])]"

definition mixed_data :: collection where
  "mixed_data =
     [(''a'', [(''date'', PStr ''2024-02-01''), (''amount'', PFloat (Fin 10)),
               (''category'', PStr ''Meals'')]),
      (''n'', [(''date'', PStr ''2024-02-02''), (''amount'', PNone), (''category'', PStr ''Meals'')]),
      (''s'', [(''date'', PStr ''2024-02-03''), (''amount'', PStr ''$5''),
               (''category'', PStr ''Meals'')]),
      (''k'', [(''date'', PStr ''2024-02-04''), (''category'', PStr ''Meals'')])]"

definition case_data :: collection where
  "case_data =
     [(''a'', [(''category'', PStr ''Meals''), (''amount'', PFloat (Fin 3))]),
      (''b'', [(''category'', PStr ''meals''), (''amount'', PFloat (Fin 2))])]"

definition raw_files :: "(string \<times> (pyerror + pyval)) list" where
  "raw_files =
     [(''x.jpg'', Inr (PDict [(''date'', PStr ''2024-02-15''), (''amount'', PStr ''$5''),
                              (''vendor'', PStr ''Cafe''), (''category'', PStr ''Meals'')])),
      (''y.jpg'', Inr (PDict [(''date'', PNone), (''amount'', PStr ''N/A''),
                              (''vendor'', PNone), (''category'', PNone)])),
      (''z.jpg'', Inr (PDict [(''date'', PStr ''2024-02-16''), (''vendor'', PStr ''Taxi'')]))]"

text \<open>The characters that can occur in a text that \<^verbatim>\<open>float\<close> accepts, whitespace and
  underscores apart.\<close>

definition float_char :: "char \<Rightarrow> bool" where
  "float_char c = (is_digit c \<or> c \<in> set ''+-.eE'' \<or> to_lower c \<in> set ''infinitynan'')"

text \<open>
  The characters of the text that \<^verbatim>\<open>repr\<close> prints for a finite float, and the sign
  before its digits.
\<close>

definition num_char :: "char \<Rightarrow> bool" where
  "num_char c = (is_digit c \<or> c \<in> set ''.e+-'')"

definition sign_str :: "bool \<Rightarrow> string" where
  "sign_str neg = (if neg then ''-'' else [])"

section \<open>The range total\<close>

lemma dt_le_iff_not_less: "dt_le a b \<longleftrightarrow> \<not> dt_less b a"
  by (cases a; cases b) (auto simp: dt_le_def)

lemma expense_step_skip:
  "\<not> (in_range start stop r \<and> has_amount r) \<Longrightarrow> expense_step start stop tot r = Inr tot"
  by (auto simp: expense_step_def in_range_def has_amount_def Let_def dt_le_iff_not_less
      split: option.splits)

lemma expense_step_count:
  "in_range start stop r \<Longrightarrow> has_amount r \<Longrightarrow>
   expense_step start stop tot r = num_add tot (dict_get r ''amount'' PNone)"
  by (auto simp: expense_step_def in_range_def has_amount_def Let_def dt_le_iff_not_less
      split: option.splits)

lemma expense_loop_filter:
  "expense_loop start stop tot rs =
   sum_amounts tot (filter (\<lambda>r. in_range start stop r \<and> has_amount r) rs)"
proof (induction rs arbitrary: tot)
  case Nil
  show ?case by simp
next
  case (Cons r rs)
  show ?case
  proof (cases "in_range start stop r \<and> has_amount r")
    case True
    then show ?thesis
      using Cons.IH by (simp add: expense_step_count split: sum.splits)
  next
    case False
    then have "expense_step start stop tot r = Inr tot"
      by (rule expense_step_skip)
    with False show ?thesis
      using Cons.IH by auto
  qed
qed

text \<open>
  Claim C4. Whenever the start or the end argument does not parse as a date,
  \<open>calculate_expenses\<close> returns \<^verbatim>\<open>0.0\<close>, whatever the collection holds, and raises
  nothing.
\<close>

theorem calculate_expenses_bad_range:
  "parse_date start_date = None \<or> parse_date end_date = None \<Longrightarrow>
   calculate_expenses data start_date end_date = Inr (Fin 0)"
  by (auto simp: calculate_expenses_def split: option.splits)

theorem calculate_expenses_bad_range_witness:
  "parse_date (PStr ''2024-13-01'') = None \<and>
   parse_date (PStr ''02/28/2024'') = None \<and>
   calculate_expenses example_data (PStr ''2024-13-01'') (PStr ''2024-02-28'') = Inr (Fin 0) \<and>
   calculate_expenses example_data (PStr ''2024-02-01'') (PStr ''02/28/2024'') = Inr (Fin 0) \<and>
   calculate_expenses example_data PNone (PStr ''2024-02-28'') = Inr (Fin 0)"
proof -
  have a: "parse_date (PStr ''2024-13-01'') = None" by code_simp
  have b: "parse_date (PStr ''02/28/2024'') = None" by code_simp
  have c: "parse_date PNone = None" by (simp add: parse_date_def)
  show ?thesis
    using a b
      calculate_expenses_bad_range [of "PStr ''2024-13-01''" "PStr ''2024-02-28''" example_data]
      calculate_expenses_bad_range [of "PStr ''2024-02-01''" "PStr ''02/28/2024''" example_data]
      calculate_expenses_bad_range [of PNone "PStr ''2024-02-28''" example_data, OF disjI1 [OF c]]
    by simp
qed

text \<open>
  Claim C3. For parseable start and end dates, \<open>calculate_expenses\<close> is the sum, in
  the order of the collection, over exactly the records that have a numeric amount and
  a date that parses and is neither strictly before the start nor strictly after the
  end: a record dated exactly the start or exactly the end is counted.
\<close>

theorem calculate_expenses_range:
  assumes "parse_date start_date = Some start" and "parse_date end_date = Some stop"
  shows "calculate_expenses data start_date end_date = range_total data start stop \<and>
         (in_range start stop r \<longleftrightarrow>
            (\<exists>d. parse_date (dict_get r ''date'' PNone) = Some d \<and>
                 \<not> dt_less d start \<and> \<not> dt_less stop d))"
  using assms
  by (auto simp: calculate_expenses_def range_total_def expense_loop_filter in_range_def
      dt_le_iff_not_less split: option.splits)

theorem calculate_expenses_range_witness:
  "parse_date (PStr ''2024-02-01'') = Some (Datetime 2024 2 1) \<and>
   parse_date (PStr ''2024-03-01'') = Some (Datetime 2024 3 1) \<and>
   calculate_expenses range_data (PStr ''2024-02-01'') (PStr ''2024-03-01'') = Inr (Fin 6) \<and>
   range_total range_data (Datetime 2024 2 1) (Datetime 2024 3 1) = Inr (Fin 6) \<and>
   \<not> in_range (Datetime 2024 2 1) (Datetime 2024 3 1) (snd (range_data ! 0)) \<and>
   in_range (Datetime 2024 2 1) (Datetime 2024 3 1) (snd (range_data ! 1)) \<and>
   in_range (Datetime 2024 2 1) (Datetime 2024 3 1) (snd (range_data ! 2))"
proof -
  have a: "parse_date (PStr ''2024-02-01'') = Some (Datetime 2024 2 1)" by code_simp
  have b: "parse_date (PStr ''2024-03-01'') = Some (Datetime 2024 3 1)" by code_simp
  have c: "calculate_expenses range_data (PStr ''2024-02-01'') (PStr ''2024-03-01'') = Inr (Fin 6)"
    by code_simp
  have d: "\<not> in_range (Datetime 2024 2 1) (Datetime 2024 3 1) (snd (range_data ! 0))"
    by code_simp
  have e: "in_range (Datetime 2024 2 1) (Datetime 2024 3 1) (snd (range_data ! 1))"
    by code_simp
  have f: "in_range (Datetime 2024 2 1) (Datetime 2024 3 1) (snd (range_data ! 2))"
    by code_simp
  show ?thesis
    using a b c d e f calculate_expenses_range [OF a b, of range_data] by simp
qed

section \<open>Records without a numeric amount\<close>

lemma aggregate_step_skip: "\<not> has_amount r \<Longrightarrow> aggregate_step t r = Inr t"
  by (auto simp: aggregate_step_def has_amount_def Let_def)

lemma aggregate_loop_filter:
  "aggregate_loop t (filter has_amount rs) = aggregate_loop t rs"
  by (induction rs arbitrary: t) (auto simp: aggregate_step_skip split: sum.splits)

lemma sum_amounts_filter_idem:
  "filter (\<lambda>r. in_range start stop r \<and> has_amount r) (filter has_amount rs) =
   filter (\<lambda>r. in_range start stop r \<and> has_amount r) rs"
  by (induction rs) auto

lemma expense_loop_has_amount:
  "expense_loop start stop tot (filter has_amount rs) = expense_loop start stop tot rs"
  by (simp only: expense_loop_filter sum_amounts_filter_idem)

lemma map_snd_filter: "map snd (filter (\<lambda>e. P (snd e)) xs) = filter P (map snd xs)"
  by (induction xs) auto

text \<open>
  Claim C6. A record whose amount is absent, \<^verbatim>\<open>None\<close> or not a number leaves the running
  total of \<open>calculate_expenses\<close> and the dictionary of \<open>aggregate_by_category\<close> as
  they are and raises nothing: both functions give the same result, errors included,
  as on the collection without such records.
\<close>

theorem missing_amount_skipped:
  "(\<not> has_amount r \<longrightarrow>
      expense_step start stop tot r = Inr tot \<and> aggregate_step totals r = Inr totals) \<and>
   calculate_expenses (filter (\<lambda>e. has_amount (snd e)) data) start_date end_date =
     calculate_expenses data start_date end_date \<and>
   aggregate_by_category (filter (\<lambda>e. has_amount (snd e)) data) = aggregate_by_category data"
  by (simp add: expense_step_skip aggregate_step_skip calculate_expenses_def
      aggregate_by_category_def map_snd_filter expense_loop_has_amount aggregate_loop_filter
      split: option.splits)

theorem missing_amount_skipped_witness:
  "\<not> has_amount (snd (mixed_data ! 1)) \<and> \<not> has_amount (snd (mixed_data ! 2)) \<and>
   \<not> has_amount (snd (mixed_data ! 3)) \<and>
   filter (\<lambda>e. has_amount (snd e)) mixed_data = [mixed_data ! 0] \<and>
   calculate_expenses mixed_data (PStr ''2024-02-01'') (PStr ''2024-02-28'') = Inr (Fin 10) \<and>
   calculate_expenses [mixed_data ! 0] (PStr ''2024-02-01'') (PStr ''2024-02-28'') = Inr (Fin 10) \<and>
   aggregate_by_category mixed_data = Inr [(PStr ''Meals'', Fin 10)] \<and>
   aggregate_by_category [mixed_data ! 0] = Inr [(PStr ''Meals'', Fin 10)] \<and>
   aggregate_step [(PStr ''Meals'', Fin 10)] (snd (mixed_data ! 1)) = Inr [(PStr ''Meals'', Fin 10)]"
proof -
  have a: "\<not> has_amount (snd (mixed_data ! 1))" "\<not> has_amount (snd (mixed_data ! 2))"
    "\<not> has_amount (snd (mixed_data ! 3))"
    by code_simp+
  have b: "filter (\<lambda>e. has_amount (snd e)) mixed_data = [mixed_data ! 0]" by code_simp
  have c: "calculate_expenses mixed_data (PStr ''2024-02-01'') (PStr ''2024-02-28'') = Inr (Fin 10)"
    by code_simp
  have d: "aggregate_by_category mixed_data = Inr [(PStr ''Meals'', Fin 10)]" by code_simp
  note m = missing_amount_skipped [of "snd (mixed_data ! 1)" "Datetime 2024 2 1" "Datetime 2024 2 28"
      "Fin 10" "[(PStr ''Meals'', Fin 10)]" mixed_data "PStr ''2024-02-01''" "PStr ''2024-02-28''"]
  show ?thesis
    using a b c d m by simp
qed

section \<open>Category totals\<close>

lemma key_eq_PStr: "key_eq x (PStr c) \<longleftrightarrow> x = PStr c"
  by (cases x) (auto split: option.splits)

lemma key_eq_PNone: "key_eq x PNone \<longleftrightarrow> x = PNone"
  by (cases x) (auto split: option.splits)

lemma totals_slot_Some:
  "totals_slot t k = Some i \<Longrightarrow> i < length t \<and> key_eq (fst (t ! i)) k"
  by (induction t arbitrary: i) (auto split: if_splits)

lemma totals_slot_update:
  "i < length t \<Longrightarrow> totals_slot (t[i := (fst (t ! i), v)]) k = totals_slot t k"
proof (induction t arbitrary: i)
  case Nil
  then show ?case by simp
next
  case (Cons p ps)
  then show ?case by (cases i) auto
qed

lemma totals_slot_append:
  "totals_slot (t @ [(c, v)]) k =
   (case totals_slot t k of
      Some j \<Rightarrow> Some j
    | None \<Rightarrow> if key_eq c k then Some (length t) else None)"
  by (induction t) (auto split: option.splits)

lemma aggregate_step_bucket:
  assumes amt: "has_amount r"
    and cat: "dict_get r ''category'' (PStr ''Other'') = cat"
    and hash: "hashable cat"
    and refl: "key_eq cat cat"
    and add: "num_add (bucket t cat) (dict_get r ''amount'' PNone) = Inr v"
  shows "\<exists>t'. aggregate_step t r = Inr t' \<and> totals_get t' cat = Some v \<and>
           (\<forall>k. (\<forall>x. key_eq x cat \<longrightarrow> \<not> key_eq x k) \<longrightarrow> totals_get t' k = totals_get t k)"
proof (cases "totals_slot t cat")
  case None
  have b: "bucket t cat = Fin 0"
    using None by (simp add: bucket_def totals_get_def)
  have step: "aggregate_step t r = Inr (t @ [(cat, v)])"
    using amt cat hash None add b
    by (simp add: aggregate_step_def has_amount_def Let_def)
  have own: "totals_get (t @ [(cat, v)]) cat = Some v"
    using None refl by (simp add: totals_get_def totals_slot_append)
  have other: "totals_get (t @ [(cat, v)]) k = totals_get t k"
    if "\<forall>x. key_eq x cat \<longrightarrow> \<not> key_eq x k" for k
  proof -
    from that refl have "\<not> key_eq cat k" by blast
    then show ?thesis
      by (auto simp: totals_get_def totals_slot_append nth_append
          split: option.splits dest: totals_slot_Some)
  qed
  show ?thesis
    using step own other by blast
next
  case (Some i)
  then have i: "i < length t" and ki: "key_eq (fst (t ! i)) cat"
    using totals_slot_Some by blast+
  have b: "bucket t cat = snd (t ! i)"
    using Some by (simp add: bucket_def totals_get_def)
  let ?t' = "t[i := (fst (t ! i), v)]"
  have step: "aggregate_step t r = Inr ?t'"
    using amt cat hash Some add b
    by (simp add: aggregate_step_def has_amount_def Let_def)
  have own: "totals_get ?t' cat = Some v"
    using Some i by (simp add: totals_get_def totals_slot_update)
  have other: "totals_get ?t' k = totals_get t k"
    if "\<forall>x. key_eq x cat \<longrightarrow> \<not> key_eq x k" for k
  proof (cases "totals_slot t k")
    case None
    then show ?thesis
      using i by (simp add: totals_get_def totals_slot_update)
  next
    case (Some j)
    then have "key_eq (fst (t ! j)) k"
      using totals_slot_Some by blast
    with that ki have "j \<noteq> i" by blast
    then show ?thesis
      using Some i by (simp add: totals_get_def totals_slot_update)
  qed
  show ?thesis
    using step own other by blast
qed

lemma aggregate_loop_snoc:
  "aggregate_loop t (rs @ [r]) =
   (case aggregate_loop t rs of Inl e \<Rightarrow> Inl e | Inr t' \<Rightarrow> aggregate_step t' r)"
  by (induction rs arbitrary: t) (auto split: sum.splits)

lemma aggregate_by_category_snoc:
  "aggregate_by_category data = Inr t \<Longrightarrow>
   aggregate_by_category (data @ [(name, r)]) = aggregate_step t r"
  by (simp add: aggregate_by_category_def aggregate_loop_snoc)

text \<open>
  Claim C7. In \<open>aggregate_by_category\<close>, a record without a category key adds its
  amount to the entry of the string \<^verbatim>\<open>Other\<close>, and a record whose category is a string
  \<open>c\<close> adds its amount to the entry of \<open>c\<close> and changes the entry of no other string:
  keys that differ only in case, as \<^verbatim>\<open>Meals\<close> and \<^verbatim>\<open>meals\<close>, are two entries.
\<close>

theorem category_buckets:
  assumes "aggregate_by_category data = Inr t"
    and "has_amount r"
    and "(map_of r ''category'' = None \<and> c = ''Other'') \<or> map_of r ''category'' = Some (PStr c)"
    and "num_add (bucket t (PStr c)) (dict_get r ''amount'' PNone) = Inr v"
  shows "\<exists>t'. aggregate_by_category (data @ [(name, r)]) = Inr t' \<and>
           totals_get t' (PStr c) = Some v \<and>
           (\<forall>c'. c' \<noteq> c \<longrightarrow> totals_get t' (PStr c') = totals_get t (PStr c'))"
proof -
  have cat: "dict_get r ''category'' (PStr ''Other'') = PStr c"
    using assms(3) by (auto simp: dict_get_def)
  obtain t' where t': "aggregate_step t r = Inr t'" "totals_get t' (PStr c) = Some v"
    "\<forall>k. (\<forall>x. key_eq x (PStr c) \<longrightarrow> \<not> key_eq x k) \<longrightarrow> totals_get t' k = totals_get t k"
    using aggregate_step_bucket [OF assms(2) cat _ _ assms(4)] by auto
  have "totals_get t' (PStr c') = totals_get t (PStr c')" if "c' \<noteq> c" for c'
    using t'(3) that by (simp add: key_eq_PStr)
  then show ?thesis
    using t'(1,2) aggregate_by_category_snoc [OF assms(1)] by auto
qed

theorem category_buckets_witness:
  "aggregate_by_category case_data = Inr [(PStr ''Meals'', Fin 3), (PStr ''meals'', Fin 2)] \<and>
   has_amount [(''amount'', PFloat (Fin 4))] \<and>
   map_of [(''amount'', PFloat (Fin 4))] ''category'' = None \<and>
   num_add (bucket [(PStr ''Meals'', Fin 3), (PStr ''meals'', Fin 2)] (PStr ''Other''))
     (dict_get [(''amount'', PFloat (Fin 4))] ''amount'' PNone) = Inr (Fin 4) \<and>
   (\<exists>t'. aggregate_by_category (case_data @ [(''c'', [(''amount'', PFloat (Fin 4))])]) = Inr t' \<and>
         totals_get t' (PStr ''Other'') = Some (Fin 4) \<and>
         totals_get t' (PStr ''Meals'') = Some (Fin 3) \<and>
         totals_get t' (PStr ''meals'') = Some (Fin 2)) \<and>
   aggregate_by_category (case_data @ [(''c'', [(''amount'', PFloat (Fin 4))])]) =
     Inr [(PStr ''Meals'', Fin 3), (PStr ''meals'', Fin 2), (PStr ''Other'', Fin 4)]"
proof -
  have a: "aggregate_by_category case_data = Inr [(PStr ''Meals'', Fin 3), (PStr ''meals'', Fin 2)]"
    by code_simp
  have b: "has_amount [(''amount'', PFloat (Fin 4))]" by code_simp
  have c: "(map_of [(''amount'', PFloat (Fin 4))] ''category'' = None \<and> ''Other'' = ''Other'') \<or>
           map_of [(''amount'', PFloat (Fin 4))] ''category'' = Some (PStr ''Other'')"
    by simp
  have d: "num_add (bucket [(PStr ''Meals'', Fin 3), (PStr ''meals'', Fin 2)] (PStr ''Other''))
     (dict_get [(''amount'', PFloat (Fin 4))] ''amount'' PNone) = Inr (Fin 4)"
    by code_simp
  have e: "aggregate_by_category (case_data @ [(''c'', [(''amount'', PFloat (Fin 4))])]) =
     Inr [(PStr ''Meals'', Fin 3), (PStr ''meals'', Fin 2), (PStr ''Other'', Fin 4)]"
    by code_simp
  have f: "totals_get [(PStr ''Meals'', Fin 3), (PStr ''meals'', Fin 2)] (PStr ''Meals'') = Some (Fin 3)"
    "totals_get [(PStr ''Meals'', Fin 3), (PStr ''meals'', Fin 2)] (PStr ''meals'') = Some (Fin 2)"
    by code_simp+
  obtain t' where t': "aggregate_by_category (case_data @ [(''c'', [(''amount'', PFloat (Fin 4))])]) = Inr t'"
    "totals_get t' (PStr ''Other'') = Some (Fin 4)"
    "\<forall>c'. c' \<noteq> ''Other'' \<longrightarrow>
       totals_get t' (PStr c') = totals_get [(PStr ''Meals'', Fin 3), (PStr ''meals'', Fin 2)] (PStr c')"
    using category_buckets [OF a b c d, of "''c''"] by blast
  have "totals_get t' (PStr ''Meals'') = Some (Fin 3)" "totals_get t' (PStr ''meals'') = Some (Fin 2)"
    using t'(3) f by simp_all
  then show ?thesis
    using a b d e t'(1,2) by simp
qed

text \<open>
  Claim C10. A record whose category key is present with the value \<^verbatim>\<open>None\<close> adds its
  amount to the entry of the key \<^verbatim>\<open>None\<close>, not to the entry of \<^verbatim>\<open>Other\<close> (no entry of a
  string changes), so the result has a key that is not a string.
\<close>

theorem none_category_bucket:
  assumes "aggregate_by_category data = Inr t"
    and "has_amount r"
    and "map_of r ''category'' = Some PNone"
    and "num_add (bucket t PNone) (dict_get r ''amount'' PNone) = Inr v"
  shows "\<exists>t'. aggregate_by_category (data @ [(name, r)]) = Inr t' \<and>
           totals_get t' PNone = Some v \<and>
           (\<forall>c. totals_get t' (PStr c) = totals_get t (PStr c)) \<and>
           PNone \<in> fst ` set t'"
proof -
  have cat: "dict_get r ''category'' (PStr ''Other'') = PNone"
    using assms(3) by (simp add: dict_get_def)
  obtain t' where t': "aggregate_step t r = Inr t'" "totals_get t' PNone = Some v"
    "\<forall>k. (\<forall>x. key_eq x PNone \<longrightarrow> \<not> key_eq x k) \<longrightarrow> totals_get t' k = totals_get t k"
    using aggregate_step_bucket [OF assms(2) cat _ _ assms(4)] by auto
  have str: "totals_get t' (PStr c) = totals_get t (PStr c)" for c
    using t'(3) by (simp add: key_eq_PNone)
  obtain i where "totals_slot t' PNone = Some i"
    using t'(2) by (auto simp: totals_get_def)
  then have "i < length t'" "fst (t' ! i) = PNone"
    using totals_slot_Some [of t' PNone i] by (auto simp: key_eq_PNone)
  then have "PNone \<in> fst ` set t'"
    by (metis image_eqI nth_mem)
  then show ?thesis
    using t'(1,2) str aggregate_by_category_snoc [OF assms(1)] by auto
qed

theorem none_category_bucket_witness:
  "aggregate_by_category case_data = Inr [(PStr ''Meals'', Fin 3), (PStr ''meals'', Fin 2)] \<and>
   has_amount [(''category'', PNone), (''amount'', PFloat (Fin 4))] \<and>
   map_of [(''category'', PNone), (''amount'', PFloat (Fin 4))] ''category'' = Some PNone \<and>
   (\<exists>t'. aggregate_by_category
           (case_data @ [(''c'', [(''category'', PNone), (''amount'', PFloat (Fin 4))])]) = Inr t' \<and>
         totals_get t' PNone = Some (Fin 4) \<and>
         totals_get t' (PStr ''Other'') = None \<and>
         PNone \<in> fst ` set t') \<and>
   aggregate_by_category
     (case_data @ [(''c'', [(''category'', PNone), (''amount'', PFloat (Fin 4))])]) =
     Inr [(PStr ''Meals'', Fin 3), (PStr ''meals'', Fin 2), (PNone, Fin 4)]"
proof -
  have a: "aggregate_by_category case_data = Inr [(PStr ''Meals'', Fin 3), (PStr ''meals'', Fin 2)]"
    by code_simp
  have b: "has_amount [(''category'', PNone), (''amount'', PFloat (Fin 4))]" by code_simp
  have c: "map_of [(''category'', PNone), (''amount'', PFloat (Fin 4))] ''category'' = Some PNone"
    by simp
  have d: "num_add (bucket [(PStr ''Meals'', Fin 3), (PStr ''meals'', Fin 2)] PNone)
     (dict_get [(''category'', PNone), (''amount'', PFloat (Fin 4))] ''amount'' PNone) = Inr (Fin 4)"
    by code_simp
  have e: "aggregate_by_category
     (case_data @ [(''c'', [(''category'', PNone), (''amount'', PFloat (Fin 4))])]) =
     Inr [(PStr ''Meals'', Fin 3), (PStr ''meals'', Fin 2), (PNone, Fin 4)]"
    by code_simp
  have f: "totals_get [(PStr ''Meals'', Fin 3), (PStr ''meals'', Fin 2)] (PStr ''Other'') = None"
    by code_simp
  obtain t' where t': "aggregate_by_category
           (case_data @ [(''c'', [(''category'', PNone), (''amount'', PFloat (Fin 4))])]) = Inr t'"
    "totals_get t' PNone = Some (Fin 4)"
    "\<forall>c. totals_get t' (PStr c) =
         totals_get [(PStr ''Meals'', Fin 3), (PStr ''meals'', Fin 2)] (PStr c)"
    "PNone \<in> fst ` set t'"
    using none_category_bucket [OF a b c d, of "''c''"] by blast
  have "totals_get t' (PStr ''Other'') = None"
    using t'(3) f by simp
  then show ?thesis
    using a b c e t'(1,2,4) by simp
qed

section \<open>The amounts of a processed directory\<close>

lemma sanitize_amount_cases: "sanitize_amount x = PNone \<or> is_float (sanitize_amount x)"
  by (simp add: sanitize_amount_def Let_def split: option.splits)

lemma set_update_subset: "set (AList.update k v al) \<subseteq> insert (k, v) (set al)"
  by (induction al) auto

lemma normalized_update: "normalized (AList.update ''amount'' (sanitize_amount x) d)"
  using sanitize_amount_cases [of x] by (simp add: normalized_def update_conv')

lemma process_file_normalized:
  assumes "process_file results f = Inr results'" and "\<forall>e\<in>set results. normalized (snd e)"
  shows "\<forall>e\<in>set results'. normalized (snd e)"
proof -
  obtain d where d: "snd f = Inr (PDict d)"
    and r: "results' = AList.update (fst f)
             (AList.update ''amount'' (sanitize_amount (dict_get d ''amount'' PNone)) d) results"
    using assms(1) by (auto simp: process_file_def split: sum.splits pyval.splits)
  show ?thesis
    using assms(2) set_update_subset [of "fst f" _ results] normalized_update
    unfolding r by fastforce
qed

lemma process_files_normalized:
  "process_files results fs = Inr coll \<Longrightarrow> \<forall>e\<in>set results. normalized (snd e) \<Longrightarrow>
   \<forall>e\<in>set coll. normalized (snd e)"
proof (induction fs arbitrary: results)
  case Nil
  then show ?case by simp
next
  case (Cons f fs)
  then obtain results' where r: "process_file results f = Inr results'"
    and c: "process_files results' fs = Inr coll"
    by (auto split: sum.splits)
  show ?case
    using Cons.IH [OF c] process_file_normalized [OF r Cons.prems(2)] by blast
qed

lemma normalized_has_amount:
  "normalized r \<Longrightarrow> has_amount r \<longleftrightarrow> dict_get r ''amount'' PNone \<noteq> PNone"
  by (cases "map_of r ''amount''")
     (auto simp: normalized_def has_amount_def dict_get_def elim: is_float.elims)

text \<open>
  Claim C9. \<open>sanitize_amount\<close> returns \<^verbatim>\<open>None\<close> or a float, so every record of a
  collection made by \<open>process_directory\<close> has an amount field that is \<^verbatim>\<open>None\<close> or a
  float, and the numeric check of the two aggregations succeeds exactly when the
  normalization did not give \<^verbatim>\<open>None\<close>.
\<close>

theorem sanitized_amounts:
  "(sanitize_amount x = PNone \<or> is_float (sanitize_amount x)) \<and>
   (is_number (sanitize_amount x) \<longleftrightarrow> sanitize_amount x \<noteq> PNone) \<and>
   (process_directory files = Inr coll \<longrightarrow>
      (\<forall>e\<in>set coll. normalized (snd e) \<and>
         (has_amount (snd e) \<longleftrightarrow> dict_get (snd e) ''amount'' PNone \<noteq> PNone)))"
proof -
  have a: "sanitize_amount x = PNone \<or> is_float (sanitize_amount x)"
    by (rule sanitize_amount_cases)
  then have b: "is_number (sanitize_amount x) \<longleftrightarrow> sanitize_amount x \<noteq> PNone"
    by (auto elim: is_float.elims)
  have c: "\<forall>e\<in>set coll. normalized (snd e)" if "process_directory files = Inr coll"
    using that process_files_normalized [of "[]" files coll] by (simp add: process_directory_def)
  show ?thesis
    using a b c normalized_has_amount by blast
qed

theorem sanitized_amounts_witness:
  "process_directory raw_files =
     Inr [(''x.jpg'', [(''date'', PStr ''2024-02-15''), (''amount'', PFloat (Fin 5)),
                       (''vendor'', PStr ''Cafe''), (''category'', PStr ''Meals'')]),
          (''y.jpg'', [(''date'', PNone), (''amount'', PNone),
                       (''vendor'', PNone), (''category'', PNone)]),
          (''z.jpg'', [(''date'', PStr ''2024-02-16''), (''vendor'', PStr ''Taxi''),
                       (''amount'', PNone)])] \<and>
   list_all (\<lambda>e. normalized (snd e) \<and>
               has_amount (snd e) = (dict_get (snd e) ''amount'' PNone \<noteq> PNone))
     (projr (process_directory raw_files)) \<and>
   sanitize_amount (PStr ''$5'') = PFloat (Fin 5) \<and> is_number (sanitize_amount (PStr ''$5'')) \<and>
   sanitize_amount (PStr ''N/A'') = PNone \<and> \<not> is_number (sanitize_amount (PStr ''N/A''))"
proof -
  have a: "process_directory raw_files =
     Inr [(''x.jpg'', [(''date'', PStr ''2024-02-15''), (''amount'', PFloat (Fin 5)),
                       (''vendor'', PStr ''Cafe''), (''category'', PStr ''Meals'')]),
          (''y.jpg'', [(''date'', PNone), (''amount'', PNone),
                       (''vendor'', PNone), (''category'', PNone)]),
          (''z.jpg'', [(''date'', PStr ''2024-02-16''), (''vendor'', PStr ''Taxi''),
                       (''amount'', PNone)])]"
    by code_simp
  have b: "sanitize_amount (PStr ''$5'') = PFloat (Fin 5)" by code_simp
  have c: "sanitize_amount (PStr ''N/A'') = PNone" by code_simp
  have d: "process_directory raw_files = Inr (projr (process_directory raw_files))"
    by (simp add: a)
  show ?thesis
    using sanitized_amounts [of "PStr ''$5''" raw_files "projr (process_directory raw_files)"]
      sanitized_amounts [of "PStr ''N/A''" raw_files "projr (process_directory raw_files)"]
      a b c d
    by (simp add: list_all_iff)
qed

section \<open>The example of the specification\<close>

text \<open>
  Claim C2, as amended. For the example collection, with the amount of \<open>b\<close>
  normalized, \<open>aggregate_by_category\<close> returns \<^verbatim>\<open>{"Meals": 15.0}\<close> and
  \<open>calculate_expenses\<close> for the range 2024-02-01 to 2024-02-28 returns \<^verbatim>\<open>15.0\<close>: the
  records \<open>a\<close> and \<open>b\<close> are both dated in the range.
\<close>

theorem example_totals:
  "aggregate_by_category example_data = Inr [(PStr ''Meals'', Fin 15)] \<and>
   calculate_expenses example_data (PStr ''2024-02-01'') (PStr ''2024-02-28'') = Inr (Fin 15)"
  by code_simp

theorem example_totals_witness:
  "sanitize_amount (PStr ''$5'') = PFloat (Fin 5) \<and>
   fadd (fadd (Fin 0) (Fin 10)) (Fin 5) = Fin 15 \<and>
   calculate_expenses example_data (PStr ''2024-02-01'') (PStr ''2024-02-28'') =
     Inr (fadd (fadd (Fin 0) (Fin 10)) (Fin 5)) \<and>
   aggregate_by_category example_data = Inr [(PStr ''Meals'', fadd (fadd (Fin 0) (Fin 10)) (Fin 5))]"
proof -
  have a: "sanitize_amount (PStr ''$5'') = PFloat (Fin 5)" by code_simp
  have b: "fadd (fadd (Fin 0) (Fin 10)) (Fin 5) = Fin 15" by code_simp
  show ?thesis
    using a b example_totals by simp
qed

text \<open>The range total of the example is not \<^verbatim>\<open>10.0\<close>, as claim C2 has it.\<close>

theorem example_range_total_counterexample:
  "\<not> (aggregate_by_category example_data = Inr [(PStr ''Meals'', Fin 15)] \<and>
      calculate_expenses example_data (PStr ''2024-02-01'') (PStr ''2024-02-28'') = Inr (Fin 10))"
  by code_simp

section \<open>Characters of a float literal\<close>

lemma is_space_to_lower: "is_space c \<Longrightarrow> to_lower c = c"
  by (auto simp: is_space_def to_lower_def Let_def)

lemma to_lower_dollar: "to_lower (CHR ''$'') = CHR ''$''"
  by (simp add: to_lower_def)

lemma to_lower_underscore: "to_lower (CHR ''_'') = CHR ''_''"
  by (simp add: to_lower_def)

lemma float_char_not_space: "float_char c \<Longrightarrow> \<not> is_space c"
proof
  assume f: "float_char c" and s: "is_space c"
  then have "is_digit c \<or> c \<in> set ''+-.eE'' \<or> c \<in> set ''infinitynan''"
    by (simp add: float_char_def is_space_to_lower)
  then show False
  proof (elim disjE)
    assume "is_digit c"
    with s show False by (auto simp: is_digit_def is_space_def Let_def)
  next
    assume "c \<in> set ''+-.eE''"
    with s show False by (auto simp: is_space_def Let_def)
  next
    assume "c \<in> set ''infinitynan''"
    with s show False by (auto simp: is_space_def Let_def)
  qed
qed

lemma float_char_not_dollar: "float_char c \<Longrightarrow> c \<noteq> CHR ''$''"
  by (auto simp: float_char_def is_digit_def to_lower_dollar)

lemma is_space_not_dollar: "is_space c \<Longrightarrow> c \<noteq> CHR ''$''"
  by (auto simp: is_space_def Let_def)

lemma is_ascii_space_is_space: "is_ascii_space c \<Longrightarrow> is_space c"
  by (auto simp: is_ascii_space_def is_space_def Let_def)

lemma split_sign_chars:
  "split_sign s = (n, r) \<Longrightarrow> (\<forall>c\<in>set r. float_char c) \<Longrightarrow> \<forall>c\<in>set s. float_char c"
  by (cases s) (auto simp: float_char_def split: if_splits)

lemma digits_float_char: "\<forall>c\<in>set (takeWhile is_digit s). float_char c"
  by (auto simp: float_char_def dest: set_takeWhileD)

lemma take_drop_chars:
  "(\<forall>c\<in>set (takeWhile P s). Q c) \<Longrightarrow> (\<forall>c\<in>set (dropWhile P s). Q c) \<Longrightarrow> \<forall>c\<in>set s. Q c"
  by (metis takeWhile_dropWhile_id Un_iff set_append)

lemma digits_then_chars:
  assumes "\<forall>c\<in>set (dropWhile is_digit s). float_char c"
  shows "\<forall>c\<in>set s. float_char c"
  using take_drop_chars [of is_digit s float_char] digits_float_char [of s] assms by blast

lemma all_digits_chars: "dropWhile is_digit s = [] \<Longrightarrow> \<forall>c\<in>set s. float_char c"
  by (auto simp: float_char_def dropWhile_eq_Nil_conv)

lemma parse_exponent_Cons:
  "parse_exponent (c # t) =
     (if c = CHR ''e'' \<or> c = CHR ''E'' then
        (if takeWhile is_digit (snd (split_sign t)) = [] then (0, c # t)
         else ((if fst (split_sign t) then - digits_val (takeWhile is_digit (snd (split_sign t)))
                else digits_val (takeWhile is_digit (snd (split_sign t)))),
               dropWhile is_digit (snd (split_sign t))))
      else (0, c # t))"
  by (simp add: parse_exponent_def Let_def split: prod.splits)

lemma parse_exponent_chars:
  assumes "parse_exponent s = (x, [])"
  shows "\<forall>c\<in>set s. float_char c"
proof (cases s)
  case Nil
  then show ?thesis by simp
next
  case (Cons c t)
  have ce: "c = CHR ''e'' \<or> c = CHR ''E''"
    using assms unfolding Cons parse_exponent_Cons by (simp split: if_splits)
  have d: "dropWhile is_digit (snd (split_sign t)) = []"
    using assms ce unfolding Cons parse_exponent_Cons by (simp split: if_splits)
  have "\<forall>c\<in>set (snd (split_sign t)). float_char c"
    using d by (rule all_digits_chars)
  then have "\<forall>c\<in>set t. float_char c"
    using split_sign_chars [of t "fst (split_sign t)" "snd (split_sign t)"] by simp
  moreover have "float_char c"
    using ce by (auto simp: float_char_def)
  ultimately show ?thesis
    unfolding Cons by simp
qed

lemma parse_decimal_chars:
  assumes "parse_decimal s = Some (v, [])"
  shows "\<forall>c\<in>set s. float_char c"
proof -
  obtain neg s1 where ss: "split_sign s = (neg, s1)"
    by (cases "split_sign s")
  define r1 where "r1 = dropWhile is_digit s1"
  have r1: "\<forall>c\<in>set r1. float_char c"
  proof (cases r1)
    case Nil
    then show ?thesis by simp
  next
    case (Cons c t)
    show ?thesis
    proof (cases "c = CHR ''.''")
      case True
      then have "\<exists>x. parse_exponent (dropWhile is_digit t) = (x, [])"
        using assms ss Cons
        by (auto simp: parse_decimal_def Let_def r1_def [symmetric] split: if_splits prod.splits)
      then have "\<forall>c\<in>set (dropWhile is_digit t). float_char c"
        using parse_exponent_chars by blast
      then have "\<forall>c\<in>set t. float_char c"
        by (rule digits_then_chars)
      then show ?thesis
        using Cons True by (auto simp: float_char_def)
    next
      case False
      then have "\<exists>x. parse_exponent r1 = (x, [])"
        using assms ss Cons
        by (auto simp: parse_decimal_def Let_def r1_def [symmetric] split: if_splits prod.splits)
      then show ?thesis
        using parse_exponent_chars by blast
    qed
  qed
  have "\<forall>c\<in>set s1. float_char c"
    using r1 unfolding r1_def by (rule digits_then_chars)
  then show ?thesis
    using ss split_sign_chars by blast
qed

lemma ci_match_chars:
  assumes "ci_match s t" and "set t \<subseteq> set ''infinitynan''" and "length t = n"
  shows "\<forall>c\<in>set (take n s). float_char c"
proof
  fix c
  assume "c \<in> set (take n s)"
  then have "to_lower c \<in> set (map to_lower (take (length t) s))"
    using assms(3) by simp
  then have "to_lower c \<in> set t"
    using assms(1) by (simp only: ci_match_def)
  then show "float_char c"
    using assms(2) by (auto simp only: float_char_def)
qed

lemma take_drop_float_chars:
  "(\<forall>c\<in>set (take n s). float_char c) \<Longrightarrow> (\<forall>c\<in>set (drop n s). float_char c) \<Longrightarrow>
   \<forall>c\<in>set s. float_char c"
  by (metis append_take_drop_id Un_iff set_append)

lemma parse_inf_or_nan_chars:
  assumes "parse_inf_or_nan s = Some (v, [])"
  shows "\<forall>c\<in>set s. float_char c"
proof -
  obtain neg s1 where ss: "split_sign s = (neg, s1)"
    by (cases "split_sign s")
  have "\<forall>c\<in>set s1. float_char c"
  proof (cases "ci_match s1 ''inf''")
    case True
    then have a: "\<forall>c\<in>set (take 3 s1). float_char c"
      using ci_match_chars [of s1 "''inf''" 3] by simp
    have b: "\<forall>c\<in>set (drop 3 s1). float_char c"
    proof (cases "ci_match (drop 3 s1) ''inity''")
      case True
      then have "\<forall>c\<in>set (take 5 (drop 3 s1)). float_char c"
        using ci_match_chars [of "drop 3 s1" "''inity''" 5] by simp
      moreover have "drop 5 (drop 3 s1) = []"
        using assms ss \<open>ci_match s1 ''inf''\<close> True
        by (simp add: parse_inf_or_nan_def Let_def)
      ultimately show ?thesis
        using take_drop_float_chars [of 5 "drop 3 s1"] by simp
    next
      case False
      then have "drop 3 s1 = []"
        using assms ss \<open>ci_match s1 ''inf''\<close>
        by (simp add: parse_inf_or_nan_def Let_def)
      then show ?thesis by simp
    qed
    show ?thesis
      using a b by (rule take_drop_float_chars)
  next
    case False
    then have n: "ci_match s1 ''nan''" and d: "drop 3 s1 = []"
      using assms ss by (auto simp: parse_inf_or_nan_def Let_def split: if_splits)
    have "\<forall>c\<in>set (take 3 s1). float_char c"
      using n ci_match_chars [of s1 "''nan''" 3] by simp
    then show ?thesis
      using d take_drop_float_chars [of 3 s1] by simp
  qed
  then show ?thesis
    using ss split_sign_chars by blast
qed

lemma parse_float_chars: "parse_float s = Some v \<Longrightarrow> \<forall>c\<in>set s. float_char c"
  unfolding parse_float_def
  by (auto split: option.splits prod.splits if_splits
      dest: parse_decimal_chars parse_inf_or_nan_chars)

lemma parse_float_Nil: "parse_float [] = None"
  by (simp add: parse_float_def parse_decimal_def parse_inf_or_nan_def ci_match_def)

section \<open>Stripping\<close>

lemma dropWhile_keeps: "x \<in> set xs \<Longrightarrow> \<not> P x \<Longrightarrow> x \<in> set (dropWhile P xs)"
  by (induction xs) auto

lemma strip_keeps:
  "x \<in> set xs \<Longrightarrow> \<not> P x \<Longrightarrow> x \<in> set (rev (dropWhile P (rev (dropWhile P xs))))"
  by (simp add: dropWhile_keeps)

lemma strip_wrap:
  assumes "\<forall>c\<in>set w. P c" and "\<forall>c\<in>set w'. P c"
  shows "rev (dropWhile P (rev (dropWhile P (w @ s @ w')))) = rev (dropWhile P (rev (dropWhile P s)))"
proof -
  have a: "dropWhile P (w @ s @ w') = dropWhile P (s @ w')"
    by (rule dropWhile_append2) (use assms(1) in auto)
  have w': "dropWhile P (rev w') = []"
    using assms(2) by simp
  show ?thesis
  proof (cases "\<forall>c\<in>set s. P c")
    case True
    then have x: "dropWhile P (s @ w') = []" and y: "dropWhile P s = []"
      using assms(2) by simp_all
    show ?thesis
      unfolding a x y by simp
  next
    case False
    then obtain x where "x \<in> set s" "\<not> P x" by blast
    then have x: "dropWhile P (s @ w') = dropWhile P s @ w'"
      by (rule dropWhile_append1)
    have "dropWhile P (rev w' @ rev (dropWhile P s)) = dropWhile P (rev (dropWhile P s))"
      by (rule dropWhile_append2) (use assms(2) in auto)
    then show ?thesis
      unfolding a x by simp
  qed
qed

lemma py_strip_wrap:
  "\<forall>c\<in>set w. is_space c \<Longrightarrow> \<forall>c\<in>set w'. is_space c \<Longrightarrow> py_strip (w @ s @ w') = py_strip s"
  unfolding py_strip_def by (rule strip_wrap)

lemma drop_underscores_keeps:
  "drop_underscores p s = Some t \<Longrightarrow> c \<in> set s \<Longrightarrow> c \<noteq> CHR ''_'' \<Longrightarrow> c \<in> set t"
proof (induction s arbitrary: p t)
  case Nil
  then show ?case by simp
next
  case (Cons x xs)
  then show ?case
    by (auto split: if_splits)
qed

lemma float_of_str_no_dollar:
  assumes "float_of_str s = Some v"
  shows "CHR ''$'' \<notin> set s"
proof
  assume d: "CHR ''$'' \<in> set s"
  obtain t where t: "drop_underscores (CHR 0x00) (map float_blank s) = Some t"
    and p: "parse_float (float_strip t) = Some v"
    using assms by (auto simp: float_of_str_def split: option.splits)
  have "float_blank (CHR ''$'') = CHR ''$''"
    by (simp add: float_blank_def)
  then have "CHR ''$'' \<in> set (map float_blank s)"
    using d by (metis image_eqI list.set_map)
  then have "CHR ''$'' \<in> set t"
    using t drop_underscores_keeps by blast
  moreover have "\<not> is_ascii_space (CHR ''$'')"
    by (simp add: is_ascii_space_def)
  ultimately have "CHR ''$'' \<in> set (float_strip t)"
    unfolding float_strip_def by (rule strip_keeps)
  then have "float_char (CHR ''$'')"
    using parse_float_chars [OF p] by blast
  then show False
    using float_char_not_dollar by blast
qed

lemma float_blank_space:
  assumes "is_space x"
  shows "is_space (float_blank x)" and "\<not> is_digit (float_blank x)"
    and "float_blank x \<noteq> CHR ''_''"
  using assms by (auto simp: float_blank_def is_space_def is_digit_def Let_def)

lemma drop_underscores_prev:
  "\<not> is_digit p \<Longrightarrow> p \<noteq> CHR ''_'' \<Longrightarrow> \<not> is_digit q \<Longrightarrow> q \<noteq> CHR ''_'' \<Longrightarrow>
   drop_underscores p xs = drop_underscores q xs"
  by (cases xs) auto

lemma drop_underscores_snoc:
  assumes "drop_underscores p (xs @ [x]) = Some t" and "\<not> is_digit x" and "x \<noteq> CHR ''_''"
  shows "\<exists>t'. drop_underscores p xs = Some t' \<and> t = t' @ [x]"
  using assms
proof (induction xs arbitrary: p t)
  case Nil
  then show ?case by (auto split: if_splits)
next
  case (Cons c cs)
  show ?case
  proof (cases "c = CHR ''_''")
    case True
    then have d: "is_digit p" and r: "drop_underscores c (cs @ [x]) = Some t"
      using Cons.prems(1) by (auto split: if_splits)
    obtain t' where "drop_underscores c cs = Some t'" "t = t' @ [x]"
      using Cons.IH [OF r Cons.prems(2,3)] by blast
    then show ?thesis
      using True d by simp
  next
    case False
    then obtain u where ok: "\<not> (p = CHR ''_'' \<and> \<not> is_digit c)"
      and r: "drop_underscores c (cs @ [x]) = Some u" and t: "t = c # u"
      using Cons.prems(1) by (auto split: if_splits)
    obtain u' where "drop_underscores c cs = Some u'" "u = u' @ [x]"
      using Cons.IH [OF r Cons.prems(2,3)] by blast
    then show ?thesis
      using False ok t by simp
  qed
qed

lemma float_of_str_drop_first:
  assumes "is_space x" and "float_of_str (x # r) = Some v"
  shows "float_of_str r = Some v"
proof -
  define x' where "x' = float_blank x"
  have x': "is_space x'" "\<not> is_digit x'" "x' \<noteq> CHR ''_''"
    using float_blank_space [OF assms(1)] by (simp_all add: x'_def)
  obtain t where t: "drop_underscores (CHR 0x00) (x' # map float_blank r) = Some t"
    and p: "parse_float (float_strip t) = Some v"
    using assms(2) by (auto simp: float_of_str_def x'_def split: option.splits)
  obtain t' where t': "drop_underscores x' (map float_blank r) = Some t'" and tt: "t = x' # t'"
    using t x'(3) by (auto split: if_splits)
  have "drop_underscores (CHR 0x00) (map float_blank r) = Some t'"
    using t' drop_underscores_prev [of "CHR 0x00" x' "map float_blank r"] x'(2,3)
    by (simp add: is_digit_def)
  moreover have "float_strip t = float_strip t'"
  proof (cases "is_ascii_space x'")
    case True
    then show ?thesis
      using strip_wrap [of "[x']" is_ascii_space "[]" t'] by (simp add: float_strip_def tt)
  next
    case False
    then have "x' \<in> set (float_strip t)"
      unfolding float_strip_def tt by (intro strip_keeps) simp_all
    then have "float_char x'"
      using parse_float_chars [OF p] by blast
    then show ?thesis
      using x'(1) float_char_not_space by blast
  qed
  ultimately show ?thesis
    using p by (simp add: float_of_str_def)
qed

lemma float_of_str_drop_last:
  assumes "is_space x" and "float_of_str (r @ [x]) = Some v"
  shows "float_of_str r = Some v"
proof -
  define x' where "x' = float_blank x"
  have x': "is_space x'" "\<not> is_digit x'" "x' \<noteq> CHR ''_''"
    using float_blank_space [OF assms(1)] by (simp_all add: x'_def)
  obtain t where t: "drop_underscores (CHR 0x00) (map float_blank r @ [x']) = Some t"
    and p: "parse_float (float_strip t) = Some v"
    using assms(2) by (auto simp: float_of_str_def x'_def split: option.splits)
  obtain t' where t': "drop_underscores (CHR 0x00) (map float_blank r) = Some t'"
    and tt: "t = t' @ [x']"
    using drop_underscores_snoc [OF t x'(2,3)] by blast
  have "float_strip t = float_strip t'"
  proof (cases "is_ascii_space x'")
    case True
    then show ?thesis
      using strip_wrap [of "[]" is_ascii_space "[x']" t'] by (simp add: float_strip_def tt)
  next
    case False
    then have "x' \<in> set (float_strip t)"
      unfolding float_strip_def tt by (intro strip_keeps) simp_all
    then have "float_char x'"
      using parse_float_chars [OF p] by blast
    then show ?thesis
      using x'(1) float_char_not_space by blast
  qed
  then show ?thesis
    using p t' by (simp add: float_of_str_def)
qed

lemma float_of_str_dropWhile:
  "float_of_str s = Some v \<Longrightarrow> float_of_str (dropWhile is_space s) = Some v"
  by (induction s) (auto dest: float_of_str_drop_first)

lemma float_of_str_dropWhile_rev:
  "float_of_str s = Some v \<Longrightarrow> float_of_str (rev (dropWhile is_space (rev s))) = Some v"
  by (induction s rule: rev_induct) (auto dest: float_of_str_drop_last)

lemma float_of_str_py_strip: "float_of_str s = Some v \<Longrightarrow> float_of_str (py_strip s) = Some v"
  unfolding py_strip_def by (intro float_of_str_dropWhile_rev float_of_str_dropWhile)

lemma str_delete_append: "str_delete c (xs @ ys) = str_delete c xs @ str_delete c ys"
  by (simp add: str_delete_def)

lemma str_delete_Cons:
  "str_delete c (x # xs) = (if x = c then str_delete c xs else x # str_delete c xs)"
  by (simp add: str_delete_def)

lemma str_delete_absent: "c \<notin> set s \<Longrightarrow> str_delete c s = s"
  by (induction s) (auto simp: str_delete_def)

lemma str_delete_spaces: "\<forall>c\<in>set w. is_space c \<Longrightarrow> str_delete (CHR ''$'') w = w"
  by (rule str_delete_absent) (auto dest: is_space_not_dollar)

lemma sanitize_amount_PStr:
  "sanitize_amount (PStr s) =
     (case float_of_str (py_strip (str_delete (CHR ''$'') s)) of
        Some f \<Rightarrow> PFloat f | None \<Rightarrow> PNone)"
  by (simp add: sanitize_amount_def py_str_def)

text \<open>
  Claim C5. For every text \<open>lit\<close> that \<^verbatim>\<open>float\<close> accepts, \<open>sanitize_amount\<close> returns
  the float \<open>lit\<close> denotes when \<open>lit\<close> stands alone, between whitespace, or after a
  \<^verbatim>\<open>$\<close> with whitespace around either.
\<close>

theorem sanitize_amount_literal:
  assumes "float_of_str lit = Some v" and "\<forall>c\<in>set (w1 @ w2 @ w3). is_space c"
  shows "sanitize_amount (PStr (w1 @ ''$'' @ w2 @ lit @ w3)) = PFloat v \<and>
         sanitize_amount (PStr (w1 @ w2 @ lit @ w3)) = PFloat v"
proof -
  have w: "\<forall>c\<in>set w1. is_space c" "\<forall>c\<in>set w2. is_space c" "\<forall>c\<in>set w3. is_space c"
    using assms(2) by auto
  have lit: "str_delete (CHR ''$'') lit = lit"
    using float_of_str_no_dollar [OF assms(1)] by (rule str_delete_absent)
  have a: "str_delete (CHR ''$'') (w1 @ ''$'' @ w2 @ lit @ w3) = (w1 @ w2) @ lit @ w3"
    using w lit by (simp add: str_delete_append str_delete_Cons str_delete_spaces)
  have b: "str_delete (CHR ''$'') (w1 @ w2 @ lit @ w3) = (w1 @ w2) @ lit @ w3"
    using w lit by (simp add: str_delete_append str_delete_spaces)
  have "py_strip ((w1 @ w2) @ lit @ w3) = py_strip lit"
    using w by (intro py_strip_wrap) auto
  then have c: "float_of_str (py_strip ((w1 @ w2) @ lit @ w3)) = Some v"
    using float_of_str_py_strip [OF assms(1)] by simp
  show ?thesis
    unfolding sanitize_amount_PStr a b c by simp
qed

theorem sanitize_amount_literal_witness:
  "float_of_str ''43.83'' = Some (Fin (3084262057307013 / 70368744177664)) \<and>
   sanitize_amount (PStr '' $43.83 '') = PFloat (Fin (3084262057307013 / 70368744177664)) \<and>
   float_of_str ''70.74'' = Some (Fin (4977884963127951 / 70368744177664)) \<and>
   sanitize_amount (PStr ''70.74'') = PFloat (Fin (4977884963127951 / 70368744177664))"
proof -
  have a: "float_of_str ''43.83'' = Some (Fin (3084262057307013 / 70368744177664))" by code_simp
  have c: "float_of_str ''70.74'' = Some (Fin (4977884963127951 / 70368744177664))" by code_simp
  have s: "\<forall>c\<in>set ('' '' @ [] @ '' ''). is_space c" by (simp add: is_space_def)
  have e: "\<forall>c\<in>set ([] @ [] @ ([] :: string)). is_space c" by simp
  show ?thesis
    using a c sanitize_amount_literal [OF a s] sanitize_amount_literal [OF c e]
    by simp
qed

text \<open>
  Claim C1, as amended. \<open>sanitize_amount\<close> returns \<^verbatim>\<open>None\<close> exactly for \<^verbatim>\<open>None\<close> and for
  the values whose text, after every \<^verbatim>\<open>$\<close> in it is deleted and surrounding whitespace is
  stripped, is not accepted by \<^verbatim>\<open>float\<close>. For a text with no \<^verbatim>\<open>$\<close>, or with one \<^verbatim>\<open>$\<close>
  as its first character, this is the transformation the specification words.
\<close>

theorem sanitize_amount_none:
  "(sanitize_amount x = PNone \<longleftrightarrow>
      x = PNone \<or> float_of_str (py_strip (str_delete (CHR ''$'') (py_str x))) = None) \<and>
   (CHR ''$'' \<notin> set s \<longrightarrow>
      py_strip (str_delete (CHR ''$'') s) = spec_clean s \<and>
      py_strip (str_delete (CHR ''$'') (CHR ''$'' # s)) = spec_clean (CHR ''$'' # s))"
proof -
  have a: "sanitize_amount x = PNone \<longleftrightarrow>
      x = PNone \<or> float_of_str (py_strip (str_delete (CHR ''$'') (py_str x))) = None"
    by (simp add: sanitize_amount_def Let_def split: option.splits)
  have b: "py_strip (str_delete (CHR ''$'') s) = spec_clean s \<and>
      py_strip (str_delete (CHR ''$'') (CHR ''$'' # s)) = spec_clean (CHR ''$'' # s)"
    if "CHR ''$'' \<notin> set s"
  proof -
    have "str_delete (CHR ''$'') s = s"
      using that by (rule str_delete_absent)
    moreover have "spec_clean s = py_strip s"
      using that by (cases s) (auto simp: spec_clean_def)
    moreover have "spec_clean (CHR ''$'' # s) = py_strip s"
      by (simp add: spec_clean_def)
    ultimately show ?thesis
      by (simp add: str_delete_Cons)
  qed
  show ?thesis
    using a b by blast
qed

theorem sanitize_amount_none_witness:
  "float_of_str (py_strip (str_delete (CHR ''$'') (py_str (PStr ''N/A'')))) = None \<and>
   sanitize_amount (PStr ''N/A'') = PNone \<and> sanitize_amount PNone = PNone \<and>
   py_strip (str_delete (CHR ''$'') ''$43.83 '') = spec_clean ''$43.83 ''"
proof -
  have a: "float_of_str (py_strip (str_delete (CHR ''$'') (py_str (PStr ''N/A'')))) = None"
    by code_simp
  have b: "CHR ''$'' \<notin> set ''43.83 ''" by simp
  show ?thesis
    using a b sanitize_amount_none [of "PStr ''N/A''" "''43.83 ''"]
      sanitize_amount_none [of PNone "''43.83 ''"]
    by simp
qed

text \<open>
  Claim C1 as stated fails: after a leading \<^verbatim>\<open>$\<close> and surrounding whitespace are stripped
  the text \<^verbatim>\<open>1$\<close> is not a number, and \<open>sanitize_amount\<close> does not return \<^verbatim>\<open>None\<close> for it.
\<close>

theorem sanitize_amount_inner_dollar_counterexample:
  "float_of_str (spec_clean (py_str (PStr ''1$''))) = None \<and>
   sanitize_amount (PStr ''1$'') \<noteq> PNone"
  by code_simp

section \<open>Powers and logarithms\<close>

lemma pw_powi: "pw b e = (of_int b :: rat) powi e"
  by (simp add: pw_def power_int_def inverse_eq_divide power_one_over [symmetric] del: power_one_over)

lemma pw_pos: "0 < b \<Longrightarrow> 0 < pw b e"
  by (simp add: pw_powi)

lemma pw_add: "b \<noteq> 0 \<Longrightarrow> pw b (x + y) = pw b x * pw b y"
  by (simp add: pw_powi power_int_add)

lemma pw_diff: "b \<noteq> 0 \<Longrightarrow> pw b (x - y) = pw b x / pw b y"
  by (simp add: pw_powi power_int_diff)

lemma pw_nat: "pw b (int n) = of_int b ^ n"
  by (simp add: pw_powi)

lemma pw_nonneg: "0 \<le> e \<Longrightarrow> pw b e = of_int (b ^ nat e)"
  by (simp add: pw_def)

lemma pw_0: "pw b 0 = 1"
  by (simp add: pw_def)

lemma pw_less: "1 < b \<Longrightarrow> x < y \<Longrightarrow> pw b x < pw b y"
  by (simp add: pw_powi power_int_strict_increasing)

lemma pw_le: "1 < b \<Longrightarrow> x \<le> y \<Longrightarrow> pw b x \<le> pw b y"
  by (simp add: pw_powi power_int_increasing)

lemma pw_less_cancel: "1 < b \<Longrightarrow> pw b x < pw b y \<Longrightarrow> x < y"
  using pw_le [of b y x] by (cases "x < y") auto

lemma intlog_bounds:
  "0 < x \<Longrightarrow> 1 < b \<Longrightarrow> 1 \<le> intlog b x \<and> b ^ nat (intlog b x - 1) \<le> x \<and> x < b ^ nat (intlog b x)"
proof (induction b x rule: intlog.induct)
  case (1 b x)
  show ?case
  proof (cases "0 < x div b")
    case False
    then have small: "x < b"
      using 1(2,3) by (simp add: pos_imp_zdiv_pos_iff)
    then have "x div b = 0"
      using 1(2) by (simp add: div_pos_pos_trivial)
    then have "intlog b x = 1"
      using 1(2,3) by (simp add: intlog.simps [of b x] intlog.simps [of b 0])
    then show ?thesis
      using 1(2) small by simp
  next
    case True
    then have ih: "1 \<le> intlog b (x div b)"
      "b ^ nat (intlog b (x div b) - 1) \<le> x div b"
      "x div b < b ^ nat (intlog b (x div b))"
      using 1 by auto
    define n where "n = nat (intlog b (x div b) - 1)"
    have il: "intlog b x = int n + 2"
      using 1(2,3) ih(1) by (simp add: intlog.simps [of b x] n_def)
    have lo: "b ^ n \<le> x div b" and hi: "x div b < b ^ Suc n"
      using ih by (simp_all add: n_def Suc_nat_eq_nat_zadd1)
    have dm: "x = b * (x div b) + x mod b" by simp
    have m: "0 \<le> x mod b" "x mod b < b"
      using 1(3) by simp_all
    have "b * b ^ n \<le> b * (x div b)"
      using lo 1(3) by simp
    also have "\<dots> \<le> x"
      using dm m(1) by linarith
    finally have a: "b ^ Suc n \<le> x" by simp
    have "x div b + 1 \<le> b ^ Suc n"
      using hi by simp
    then have "b * (x div b + 1) \<le> b * b ^ Suc n"
      using 1(3) by simp
    moreover have "x < b * (x div b) + b"
      using dm m(2) by linarith
    then have "x < b * (x div b + 1)"
      by (simp add: distrib_left)
    ultimately have b: "x < b ^ Suc (Suc n)" by simp
    show ?thesis
      using a b il by (simp add: nat_add_distrib)
  qed
qed

lemma ilog_bounds:
  assumes "0 < a" and "1 < b"
  shows "pw b (ilog b a) \<le> a \<and> a < pw b (ilog b a + 1)"
proof (cases "1 \<le> a")
  case True
  define n where "n = \<lfloor>a\<rfloor>"
  have n: "1 \<le> n" "of_int n \<le> a" "a < of_int n + 1"
    using True floor_correct [of a] by (simp_all add: n_def le_floor_iff)
  then have ib: "1 \<le> intlog b n" "b ^ nat (intlog b n - 1) \<le> n" "n < b ^ nat (intlog b n)"
    using intlog_bounds [of n b] assms(2) by auto
  have il: "ilog b a = intlog b n - 1"
    using True by (simp add: ilog_def n_def)
  have "pw b (ilog b a) = of_int (b ^ nat (intlog b n - 1))"
    using ib(1) by (simp add: il pw_nonneg)
  also have "\<dots> \<le> of_int n"
    using ib(2) by (simp only: of_int_le_iff)
  finally have lo: "pw b (ilog b a) \<le> a"
    using n(2) by simp
  have "n + 1 \<le> b ^ nat (intlog b n)"
    using ib(3) by simp
  then have "(of_int (n + 1) :: rat) \<le> of_int (b ^ nat (intlog b n))"
    by (simp only: of_int_le_iff)
  moreover have "pw b (ilog b a + 1) = of_int (b ^ nat (intlog b n))"
    using ib(1) by (simp add: il pw_nonneg)
  ultimately have hi: "a < pw b (ilog b a + 1)"
    using n(3) by simp
  show ?thesis
    using lo hi by simp
next
  case False
  define y where "y = 1 / a"
  define n where "n = \<lceil>y\<rceil>"
  have y: "1 < y"
    using False assms(1) by (simp add: y_def)
  have n2: "y \<le> of_int n" "of_int n - 1 < y"
    using ceiling_correct [of y] by (simp_all add: n_def)
  have "1 < n"
    using y by (simp add: n_def less_ceiling_iff)
  then have n: "2 \<le> n" "y \<le> of_int n" "of_int n - 1 < y"
    using n2 by simp_all
  define j where "j = intlog b (n - 1)"
  have ib: "1 \<le> j" "b ^ nat (j - 1) \<le> n - 1" "n - 1 < b ^ nat j"
    using intlog_bounds [of "n - 1" b] assms(2) n(1) by (auto simp: j_def)
  have il: "ilog b a = - j"
    using False by (simp add: ilog_def n_def y_def j_def)
  have b0: "b \<noteq> 0"
    using assms(2) by simp
  have "n \<le> b ^ nat j"
    using ib(3) by simp
  then have "(of_int n :: rat) \<le> of_int (b ^ nat j)"
    by (simp only: of_int_le_iff)
  also have "\<dots> = pw b j"
    using ib(1) by (simp add: pw_nonneg)
  finally have "y \<le> pw b j"
    using n(2) by simp
  then have "1 \<le> pw b j * a"
    using assms(1) by (simp add: y_def pos_divide_le_eq)
  then have "1 / pw b j \<le> a"
    using pw_pos [of b j] assms(2) by (simp add: pos_divide_le_eq mult.commute)
  moreover have "pw b (- j) = 1 / pw b j"
    using pw_diff [OF b0, of 0 j] by (simp add: pw_0)
  ultimately have lo: "pw b (- j) \<le> a"
    by simp
  have "pw b (j - 1) = of_int (b ^ nat (j - 1))"
    using ib(1) by (simp add: pw_nonneg)
  also have "\<dots> \<le> of_int (n - 1)"
    using ib(2) by (simp only: of_int_le_iff)
  finally have "pw b (j - 1) < y"
    using n(3) by simp
  then have "pw b (j - 1) * a < 1"
    using assms(1) by (simp add: y_def pos_less_divide_eq)
  then have "a < 1 / pw b (j - 1)"
    using pw_pos [of b "j - 1"] assms(2) by (simp add: pos_less_divide_eq mult.commute)
  moreover have "pw b (- j + 1) = 1 / pw b (j - 1)"
    using pw_diff [OF b0, of 0 "j - 1"] by (simp add: pw_0)
  ultimately have hi: "a < pw b (- j + 1)"
    by simp
  show ?thesis
    using lo hi il by simp
qed

lemma ilog_unique:
  assumes "1 < b" and "pw b l \<le> a" and "a < pw b (l + 1)"
  shows "ilog b a = l"
proof -
  have "0 < a"
    using assms pw_pos [of b l] by simp
  then have ib: "pw b (ilog b a) \<le> a" "a < pw b (ilog b a + 1)"
    using ilog_bounds assms(1) by blast+
  have "pw b l < pw b (ilog b a + 1)"
    using assms(2) ib(2) by simp
  then have "l < ilog b a + 1"
    using assms(1) by (rule pw_less_cancel [rotated])
  moreover have "pw b (ilog b a) < pw b (l + 1)"
    using assms(3) ib(1) by simp
  then have "ilog b a < l + 1"
    using assms(1) by (rule pw_less_cancel [rotated])
  ultimately show ?thesis by simp
qed

section \<open>Rounding to binary64\<close>

lemma round_half_even_of_int: "round_half_even (of_int n) = n"
  by (simp add: round_half_even_def)

lemma round_half_even_bounds: "\<lfloor>x\<rfloor> \<le> round_half_even x \<and> round_half_even x \<le> \<lfloor>x\<rfloor> + 1"
  by (simp add: round_half_even_def Let_def)

lemma round_half_even_nonneg: "0 \<le> x \<Longrightarrow> 0 \<le> round_half_even x"
  using round_half_even_bounds [of x] by (simp add: order_trans [of 0 "\<lfloor>x\<rfloor>"])

lemma round_half_even_le:
  assumes "x \<le> of_int n"
  shows "round_half_even x \<le> n"
proof (cases "x = of_int n")
  case True
  then show ?thesis by (simp add: round_half_even_of_int)
next
  case False
  then have "x < of_int n"
    using assms by simp
  then have "\<lfloor>x\<rfloor> < n"
    by (simp add: floor_less_iff)
  then show ?thesis
    using round_half_even_bounds [of x] by linarith
qed

lemma pw2_53: "pw 2 53 = of_int (2 ^ 53)"
  by (simp add: pw_nonneg)

lemma dbl_round_pos_def:
  assumes "0 < a"
  shows "dbl_round a =
           (if of_int (2 ^ 1024) \<le> of_int (dbl_mant a) * pw 2 (dbl_exp a) then PosInf
            else if dbl_mant a = 0 then Fin 0
            else Fin (of_int (dbl_mant a) * pw 2 (dbl_exp a)))"
    and "dbl_round (- a) =
           (if of_int (2 ^ 1024) \<le> of_int (dbl_mant a) * pw 2 (dbl_exp a) then NegInf
            else if dbl_mant a = 0 then NegZero
            else Fin (- (of_int (dbl_mant a) * pw 2 (dbl_exp a))))"
  using assms by (simp_all add: dbl_round_def Let_def)

lemma dbl_exp_ge: "- 1074 \<le> dbl_exp a" and dbl_exp_ge_ilog: "ilog 2 a - 52 \<le> dbl_exp a"
  by (simp_all add: dbl_exp_def)

lemma dbl_fixed:
  assumes m: "0 < m" "m < 2 ^ 53" and e: "- 1074 \<le> e"
    and a: "a = of_int m * pw 2 e"
  shows "dbl_exp a \<le> e" and "of_int (dbl_mant a) * pw 2 (dbl_exp a) = a" and "0 < dbl_mant a"
proof -
  have a0: "0 < a"
    using m(1) pw_pos [of 2 e] by (simp add: a)
  have "(of_int m :: rat) < of_int (2 ^ 53)"
    using m(2) by (simp only: of_int_less_iff)
  then have "a < pw 2 53 * pw 2 e"
    using pw_pos [of 2 e] by (simp add: a pw2_53)
  then have "a < pw 2 (53 + e)"
    by (simp add: pw_add)
  moreover have "pw 2 (ilog 2 a) \<le> a"
    using ilog_bounds [OF a0, of 2] by simp
  ultimately have "pw 2 (ilog 2 a) < pw 2 (53 + e)"
    by simp
  then have "ilog 2 a < 53 + e"
    by (rule pw_less_cancel [rotated]) simp
  then show le: "dbl_exp a \<le> e"
    using e by (simp add: dbl_exp_def)
  define e' where "e' = dbl_exp a"
  define d where "d = nat (e - e')"
  have "pw 2 e = pw 2 (int d) * pw 2 e'"
    using le pw_add [of 2 "int d" e'] by (simp add: d_def e'_def)
  then have pe: "pw 2 e = of_int (2 ^ d) * pw 2 e'"
    by (simp add: pw_nat)
  have p0: "pw 2 e' \<noteq> 0"
    using pw_pos [of 2 e'] by simp
  have am: "a = of_int (m * 2 ^ d) * pw 2 e'"
    unfolding a pe by simp
  have "a / pw 2 e' = of_int (m * 2 ^ d)"
    unfolding am using p0 by simp
  then have dm: "dbl_mant a = m * 2 ^ d"
    unfolding dbl_mant_def e'_def by (simp only: round_half_even_of_int)
  show "of_int (dbl_mant a) * pw 2 (dbl_exp a) = a"
    unfolding dm using am by (simp only: e'_def)
  show "0 < dbl_mant a"
    using m(1) by (simp add: dm)
qed

lemma dbl_round_fixed:
  assumes "0 < m" "m < 2 ^ 53" and "- 1074 \<le> e" and "a = of_int m * pw 2 e"
    and "a < of_int (2 ^ 1024)"
  shows "dbl_round a = Fin a" and "dbl_round (- a) = Fin (- a)"
proof -
  have a0: "0 < a"
    using assms(1,4) pw_pos [of 2 e] by simp
  note f = dbl_fixed [OF assms(1-4)]
  show "dbl_round a = Fin a"
    using f(2,3) assms(5) by (simp add: dbl_round_pos_def(1) [OF a0])
  show "dbl_round (- a) = Fin (- a)"
    using f(2,3) assms(5) by (simp add: dbl_round_pos_def(2) [OF a0])
qed

lemma dbl_mant_bounds:
  assumes "0 < a"
  shows "0 \<le> dbl_mant a" and "dbl_mant a \<le> 2 ^ 53"
proof -
  have p: "0 < pw 2 (dbl_exp a)"
    by (simp add: pw_pos)
  show "0 \<le> dbl_mant a"
    unfolding dbl_mant_def using assms p by (intro round_half_even_nonneg) simp
  have "a < pw 2 (ilog 2 a + 1)"
    using ilog_bounds [OF assms, of 2] by simp
  also have "\<dots> \<le> pw 2 (dbl_exp a + 53)"
    using dbl_exp_ge_ilog [of a] by (intro pw_le) simp_all
  also have "\<dots> = pw 2 (dbl_exp a) * of_int (2 ^ 53)"
    by (simp add: pw_add pw2_53)
  finally have "a / pw 2 (dbl_exp a) < of_int (2 ^ 53)"
    using p by (simp add: pos_divide_less_eq mult.commute)
  then show "dbl_mant a \<le> 2 ^ 53"
    unfolding dbl_mant_def by (intro round_half_even_le) simp
qed

lemma dbl_round_is_double: "is_double (dbl_round x)"
proof (cases "x = 0")
  case True
  then show ?thesis by (simp add: dbl_round_def)
next
  case False
  define a where "a = \<bar>x\<bar>"
  define m where "m = dbl_mant a"
  define r where "r = of_int m * pw 2 (dbl_exp a)"
  have a0: "0 < a"
    using False by (simp add: a_def)
  have x: "x = a \<or> x = - a"
    by (auto simp: a_def)
  have mb: "0 \<le> m" "m \<le> 2 ^ 53"
    using dbl_mant_bounds [OF a0] by (simp_all add: m_def)
  have z: "dbl_round 0 = Fin 0"
    by (simp add: dbl_round_def)
  show ?thesis
  proof (cases "of_int (2 ^ 1024) \<le> r \<or> m = 0")
    case True
    then show ?thesis
      using x z by (auto simp: dbl_round_pos_def [OF a0] m_def r_def)
  next
    case False
    then have r: "r < of_int (2 ^ 1024)" and m0: "0 < m"
      using mb(1) by auto
    have fx: "dbl_round r = Fin r \<and> dbl_round (- r) = Fin (- r)"
    proof (cases "m < 2 ^ 53")
      case True
      show ?thesis
        using dbl_round_fixed [OF m0 True dbl_exp_ge [of a] r_def r] by simp
    next
      case False
      then have "m = 2 ^ 53"
        using mb(2) by simp
      then have "r = of_int (2 ^ 52) * pw 2 (dbl_exp a + 1)"
        by (simp add: r_def pw_add pw_nonneg)
      moreover have "- 1074 \<le> dbl_exp a + 1"
        using dbl_exp_ge [of a] by simp
      ultimately show ?thesis
        using dbl_round_fixed [of "2 ^ 52" "dbl_exp a + 1" r] r by simp
    qed
    have "dbl_round x = Fin r \<or> dbl_round x = Fin (- r)"
      using x False by (auto simp: dbl_round_pos_def [OF a0] m_def r_def)
    then show ?thesis
      using fx by auto
  qed
qed

lemma dbl_round_Fin_pos:
  assumes "dbl_round x = Fin a" and "0 < a"
  shows "0 < x" and "dbl_round (- x) = Fin (- a)"
proof -
  have x0: "x \<noteq> 0"
    using assms by (auto simp: dbl_round_def)
  define b where "b = \<bar>x\<bar>"
  have b0: "0 < b"
    using x0 by (simp add: b_def)
  have r0: "0 \<le> of_int (dbl_mant b) * pw 2 (dbl_exp b)"
    using dbl_mant_bounds(1) [OF b0] pw_pos [of 2 "dbl_exp b"] by simp
  have x: "x = b \<or> x = - b"
    by (auto simp: b_def)
  have "x \<noteq> - b"
  proof
    assume "x = - b"
    then show False
      using assms r0 by (auto simp: dbl_round_pos_def(2) [OF b0] split: if_splits)
  qed
  then have xb: "x = b"
    using x by simp
  then show "0 < x"
    using b0 by simp
  show "dbl_round (- x) = Fin (- a)"
    using assms unfolding xb
    by (auto simp: dbl_round_pos_def [OF b0] split: if_splits)
qed

lemma is_double_abs:
  assumes "is_double (Fin q)" and "q \<noteq> 0"
  shows "dbl_round \<bar>q\<bar> = Fin \<bar>q\<bar>"
proof (cases "0 < q")
  case True
  then show ?thesis
    using assms(1) by simp
next
  case False
  define b where "b = - q"
  have b0: "0 < b"
    using False assms(2) by (simp add: b_def)
  define r where "r = of_int (dbl_mant b) * pw 2 (dbl_exp b)"
  define ovf where "ovf \<longleftrightarrow> of_int (2 ^ 1024) \<le> r"
  have n: "dbl_round (- b) =
             (if ovf then NegInf else if dbl_mant b = 0 then NegZero else Fin (- r))"
    unfolding ovf_def r_def by (rule dbl_round_pos_def(2) [OF b0])
  have p: "dbl_round b = (if ovf then PosInf else if dbl_mant b = 0 then Fin 0 else Fin r)"
    unfolding ovf_def r_def by (rule dbl_round_pos_def(1) [OF b0])
  have "dbl_round (- b) = Fin q"
    using assms(1) by (simp add: b_def)
  then have "\<not> ovf \<and> dbl_mant b \<noteq> 0 \<and> - r = q"
    unfolding n by (auto split: if_splits)
  then have "dbl_round b = Fin b"
    unfolding p by (auto simp: b_def)
  then show ?thesis
    using b0 by (simp add: b_def)
qed

section \<open>The digits of \<open>repr\<close> read back\<close>

lemma round_half_even_cases: "round_half_even x = \<lfloor>x\<rfloor> \<or> round_half_even x = \<lfloor>x\<rfloor> + 1"
  by (simp add: round_half_even_def Let_def)

lemma digits_at_reads_back: "digits_at a k n = Some c \<Longrightarrow> reads_back a c (k + 1 - int n)"
  using round_half_even_cases [of "a / pw 10 (k + 1 - int n)"]
  by (auto simp: digits_at_def Let_def split: if_splits)

lemma first_digits_reads_back: "first_digits a k ns = Some (c, e) \<Longrightarrow> reads_back a c e"
  by (induction ns) (auto split: option.splits dest: digits_at_reads_back)

lemma is_double_mant:
  assumes "dbl_round a = Fin a" and "0 < a"
  shows "of_int (dbl_mant a) * pw 2 (dbl_exp a) = a"
proof -
  define r where "r = of_int (dbl_mant a) * pw 2 (dbl_exp a)"
  define ovf where "ovf \<longleftrightarrow> of_int (2 ^ 1024) \<le> r"
  have "dbl_round a = (if ovf then PosInf else if dbl_mant a = 0 then Fin 0 else Fin r)"
    unfolding ovf_def r_def by (rule dbl_round_pos_def(1) [OF assms(2)])
  then have "r = a"
    using assms by (auto split: if_splits)
  then show ?thesis
    by (simp add: r_def)
qed

lemma pw_10: "pw 10 e = pw 2 e * pw 5 e"
proof -
  have "(of_int 10 :: rat) = of_int 2 * of_int 5" by simp
  then show ?thesis
    unfolding pw_powi by (simp only: power_int_mult_distrib)
qed

lemma exact_dec_value:
  assumes "dbl_round a = Fin a" and "0 < a" and "exact_dec a = (c, e)"
  shows "of_int c * pw 10 e = a"
proof -
  define m where "m = dbl_mant a"
  define x where "x = dbl_exp a"
  have a: "of_int m * pw 2 x = a"
    using is_double_mant [OF assms(1,2)] by (simp add: m_def x_def)
  show ?thesis
  proof (cases "0 \<le> x")
    case True
    then have "c = m * 2 ^ nat x" "e = 0"
      using assms(3) by (auto simp: exact_dec_def Let_def m_def x_def)
    then show ?thesis
      using a True by (simp add: pw_0 pw_nonneg)
  next
    case False
    then have c: "c = m * 5 ^ nat (- x)" and e: "e = x"
      using assms(3) by (auto simp: exact_dec_def Let_def m_def x_def)
    have "pw 5 (x + (- x)) = pw 5 x * pw 5 (- x)"
      by (rule pw_add) simp
    then have "pw 5 x * of_int (5 ^ nat (- x)) = 1"
      using False by (simp add: pw_0 pw_nonneg)
    then have "of_int c * pw 10 e = of_int m * pw 2 x * (pw 5 x * of_int (5 ^ nat (- x)))"
      unfolding c e pw_10 by (simp only: of_int_mult mult_ac)
    then show ?thesis
      using a \<open>pw 5 x * of_int (5 ^ nat (- x)) = 1\<close> by simp
  qed
qed

lemma shortest_dec_reads_back:
  assumes "dbl_round a = Fin a" and "0 < a" and "shortest_dec a = (c, e)"
  shows "dbl_round (of_int c * pw 10 e) = Fin a" and "0 < c"
proof -
  show r: "dbl_round (of_int c * pw 10 e) = Fin a"
  proof (cases "first_digits a (ilog 10 a) [1..<18]")
    case None
    then have "exact_dec a = (c, e)"
      using assms(3) by (simp add: shortest_dec_def)
    then show ?thesis
      using exact_dec_value [OF assms(1,2)] assms(1) by simp
  next
    case (Some ce)
    then have "first_digits a (ilog 10 a) [1..<18] = Some (c, e)"
      using assms(3) by (simp add: shortest_dec_def)
    then show ?thesis
      using first_digits_reads_back by (simp add: reads_back_def)
  qed
  have "0 < of_int c * pw 10 e"
    using dbl_round_Fin_pos(1) [OF r assms(2)] .
  then show "0 < c"
    using pw_pos [of 10 e] by (simp add: zero_less_mult_iff)
qed

section \<open>Decimal digit strings\<close>

lemma digit_char_props:
  assumes "0 \<le> n" and "n < 10"
  shows "is_digit (digit_char n)" and "digit_val (digit_char n) = n"
proof -
  have i: "(of_char (digit_char n) :: int) = 48 + n"
    using assms by (simp add: digit_char_def)
  then show "digit_val (digit_char n) = n"
    by (simp add: digit_val_def)
  have "(of_char (digit_char n) :: nat) = nat (48 + n)"
    using i nat_of_char [of "digit_char n"] by simp
  moreover have "48 \<le> nat (48 + n)" "nat (48 + n) \<le> 57"
    using assms by linarith+
  ultimately show "is_digit (digit_char n)"
    by (simp only: is_digit_def)
qed

lemma zero_digit: "is_digit (CHR ''0'')" "digit_val (CHR ''0'') = 0"
  by (simp_all add: is_digit_def digit_val_def)

lemma digits_val_Nil: "digits_val [] = 0"
  by (simp add: digits_val_def)

lemma digits_val_snoc: "digits_val (xs @ [c]) = 10 * digits_val xs + digit_val c"
  by (simp add: digits_val_def)

lemma digits_val_append:
  "digits_val (xs @ ys) = digits_val xs * 10 ^ length ys + digits_val ys"
proof (induction ys rule: rev_induct)
  case Nil
  then show ?case by (simp add: digits_val_Nil)
next
  case (snoc y ys)
  have "digits_val (xs @ ys @ [y]) = 10 * digits_val (xs @ ys) + digit_val y"
    using digits_val_snoc [of "xs @ ys" y] by simp
  then show ?case
    by (simp add: snoc digits_val_snoc algebra_simps)
qed

lemma digit_val_nonneg: "is_digit c \<Longrightarrow> 0 \<le> digit_val c"
proof -
  assume "is_digit c"
  then have "48 \<le> int (of_char c)"
    by (simp add: is_digit_def)
  then show ?thesis
    by (simp add: digit_val_def of_nat_of_char)
qed

lemma digits_val_nonneg: "\<forall>c\<in>set ds. is_digit c \<Longrightarrow> 0 \<le> digits_val ds"
  by (induction ds rule: rev_induct) (auto simp: digits_val_Nil digits_val_snoc digit_val_nonneg)

lemma dec_digits_props:
  "0 \<le> n \<Longrightarrow> (\<forall>c\<in>set (dec_digits n). is_digit c) \<and> dec_digits n \<noteq> [] \<and>
     digits_val (dec_digits n) = n"
proof (induction n rule: dec_digits.induct)
  case (1 n)
  show ?case
  proof (cases "n < 10")
    case True
    then have "dec_digits n = [digit_char n]"
      by (simp add: dec_digits.simps [of n])
    then show ?thesis
      using digit_char_props [OF 1(2) True] digits_val_snoc [of "[]" "digit_char n"]
      by (simp add: digits_val_Nil)
  next
    case False
    then have d: "dec_digits n = dec_digits (n div 10) @ [digit_char (n mod 10)]"
      by (simp add: dec_digits.simps [of n])
    have ih: "(\<forall>c\<in>set (dec_digits (n div 10)). is_digit c)"
      "digits_val (dec_digits (n div 10)) = n div 10"
      using 1 False by simp_all
    have m: "is_digit (digit_char (n mod 10))" "digit_val (digit_char (n mod 10)) = n mod 10"
      by (rule digit_char_props; simp)+
    show ?thesis
      unfolding d using ih m by (simp add: digits_val_snoc)
  qed
qed

lemma replicate_zero_val: "digits_val (replicate k (CHR ''0'')) = 0"
proof (induction k)
  case 0
  then show ?case by (simp add: digits_val_Nil)
next
  case (Suc k)
  have "replicate (Suc k) (CHR ''0'') = replicate k (CHR ''0'') @ [CHR ''0'']"
    by (simp add: replicate_append_same)
  then show ?case
    using Suc by (simp only: digits_val_snoc zero_digit)
qed

lemma zeros_props: "digits_val (zeros n) = 0" "\<forall>c\<in>set (zeros n). is_digit c" "length (zeros n) = nat n"
  by (auto simp: zeros_def replicate_zero_val zero_digit)

lemma digits_val_zeros_left: "digits_val (zeros n @ ds) = digits_val ds"
  by (simp add: digits_val_append zeros_props)

lemma digits_val_zeros_right: "digits_val (ds @ zeros n) = digits_val ds * 10 ^ nat n"
  by (simp add: digits_val_append zeros_props)

lemma takeWhile_eq_replicate:
  "takeWhile (\<lambda>c. c = x) xs = replicate (length (takeWhile (\<lambda>c. c = x) xs)) x"
  by (induction xs) auto

lemma strip_zeros_split:
  "ds = strip_zeros ds @ replicate (length ds - length (strip_zeros ds)) (CHR ''0'')"
proof -
  define t where "t = takeWhile (\<lambda>c. c = CHR ''0'') (rev ds)"
  define k where "k = length t"
  have t: "t = replicate k (CHR ''0'')"
    unfolding t_def k_def by (rule takeWhile_eq_replicate)
  have "rev (rev ds) = rev (t @ dropWhile (\<lambda>c. c = CHR ''0'') (rev ds))"
    unfolding t_def by (simp only: takeWhile_dropWhile_id)
  then have d: "ds = strip_zeros ds @ rev t"
    by (simp add: strip_zeros_def)
  have "length ds = length (strip_zeros ds @ rev t)"
    using d by simp
  then have "k = length ds - length (strip_zeros ds)"
    by (simp add: k_def)
  moreover have "rev t = replicate k (CHR ''0'')"
    using t by simp
  ultimately show ?thesis
    using d by simp
qed

lemma strip_zeros_digits: "\<forall>c\<in>set ds. is_digit c \<Longrightarrow> \<forall>c\<in>set (strip_zeros ds). is_digit c"
  by (auto simp: strip_zeros_def dest: set_dropWhileD)

lemma strip_zeros_val:
  "digits_val ds = digits_val (strip_zeros ds) * 10 ^ (length ds - length (strip_zeros ds))"
proof -
  define z where "z = length ds - length (strip_zeros ds)"
  have "digits_val ds = digits_val (strip_zeros ds @ replicate z (CHR ''0''))"
    using strip_zeros_split [of ds] by (simp add: z_def)
  then show ?thesis
    by (simp add: digits_val_append replicate_zero_val z_def)
qed

lemma strip_zeros_nonempty: "0 < digits_val ds \<Longrightarrow> strip_zeros ds \<noteq> []"
  using strip_zeros_val [of ds] by (auto simp: digits_val_Nil)

lemma strip_zeros_length: "length (strip_zeros ds) \<le> length ds"
  by (simp add: strip_zeros_def length_dropWhile_le [of _ "rev ds", simplified])

section \<open>Reading the text of \<open>repr\<close>\<close>

lemma num_char_props:
  assumes "num_char c"
  shows "float_blank c = c" and "c \<noteq> CHR ''_''" and "\<not> is_ascii_space c" and "\<not> is_space c"
    and "c \<noteq> CHR ''$''"
  using assms
  by (auto simp: num_char_def is_digit_def float_blank_def is_ascii_space_def is_space_def Let_def)

lemma is_digit_num_char: "is_digit c \<Longrightarrow> num_char c"
  by (simp add: num_char_def)

lemma strip_none:
  assumes "\<forall>c\<in>set t. \<not> P c"
  shows "rev (dropWhile P (rev (dropWhile P t))) = t"
proof -
  have "dropWhile P t = t"
    using assms by (cases t) auto
  moreover have "dropWhile P (rev t) = rev t"
    using assms by (cases "rev t") (auto simp: rev_eq_Cons_iff)
  ultimately show ?thesis by simp
qed

lemma drop_underscores_none:
  "CHR ''_'' \<notin> set t \<Longrightarrow> p \<noteq> CHR ''_'' \<Longrightarrow> drop_underscores p t = Some t"
  by (induction t arbitrary: p) auto

lemma float_of_str_plain:
  assumes "\<forall>c\<in>set t. num_char c"
  shows "float_of_str t = parse_float t"
    and "py_strip (str_delete (CHR ''$'') t) = t"
proof -
  have a: "map float_blank t = t"
    using assms by (simp add: num_char_props(1) map_idI)
  have b: "drop_underscores (CHR 0x00) t = Some t"
    using assms by (intro drop_underscores_none) (auto dest: num_char_props(2))
  have c: "float_strip t = t"
    unfolding float_strip_def using assms by (intro strip_none) (auto dest: num_char_props(3))
  show "float_of_str t = parse_float t"
    by (simp add: float_of_str_def a b c)
  have d: "str_delete (CHR ''$'') t = t"
    unfolding str_delete_def using assms by (induction t) (auto dest: num_char_props(5))
  have e: "py_strip t = t"
    unfolding py_strip_def using assms by (intro strip_none) (auto dest: num_char_props(4))
  show "py_strip (str_delete (CHR ''$'') t) = t"
    by (simp add: d e)
qed

lemma digits_prefix:
  assumes "\<forall>c\<in>set ip. is_digit c" and "rest = [] \<or> \<not> is_digit (hd rest)"
  shows "takeWhile is_digit (ip @ rest) = ip" and "dropWhile is_digit (ip @ rest) = rest"
proof -
  have t: "takeWhile is_digit rest = []" and d: "dropWhile is_digit rest = rest"
    using assms(2) by (cases rest; simp)+
  show "takeWhile is_digit (ip @ rest) = ip"
    using assms(1) t by (simp add: takeWhile_append2)
  show "dropWhile is_digit (ip @ rest) = rest"
    using assms(1) d by (simp add: dropWhile_append2)
qed

lemma not_digit: "\<not> is_digit (CHR ''.'')" "\<not> is_digit (CHR ''e'')" "\<not> is_digit (CHR ''-'')"
  "\<not> is_digit (CHR ''+'')"
  by (simp_all add: is_digit_def)

lemma digits_no_sign:
  "is_digit c \<Longrightarrow> c \<noteq> CHR ''-'' \<and> c \<noteq> CHR ''+'' \<and> c \<noteq> CHR ''.'' \<and> c \<noteq> CHR ''e'' \<and> c \<noteq> CHR ''E''"
  by (auto simp: is_digit_def)

lemma split_sign_digits: "is_digit c \<Longrightarrow> split_sign (c # cs) = (False, c # cs)"
  using digits_no_sign [of c] by simp

lemma exp_str_parse: "parse_exponent (CHR ''e'' # exp_str x) = (x, [])"
proof -
  define ds where "ds = dec_digits \<bar>x\<bar>"
  define ds' where "ds' = (if length ds < 2 then CHR ''0'' # ds else ds)"
  have ds: "\<forall>c\<in>set ds. is_digit c" "ds \<noteq> []" "digits_val ds = \<bar>x\<bar>"
    using dec_digits_props [of "\<bar>x\<bar>"] by (simp_all add: ds_def)
  have "digits_val (CHR ''0'' # ds) = digits_val ds"
    using digits_val_append [of "[CHR ''0'']" ds] digits_val_snoc [of "[]" "CHR ''0''"]
    by (simp add: digits_val_Nil zero_digit)
  then have ds': "\<forall>c\<in>set ds'. is_digit c" "ds' \<noteq> []" "digits_val ds' = \<bar>x\<bar>"
    using ds by (auto simp: ds'_def zero_digit)
  have e: "exp_str x = (if x < 0 then CHR ''-'' else CHR ''+'') # ds'"
    by (simp add: exp_str_def Let_def ds_def ds'_def)
  have s: "split_sign (exp_str x) = (x < 0, ds')"
    unfolding e by simp
  have t: "takeWhile is_digit ds' = ds'" "dropWhile is_digit ds' = []"
    using digits_prefix [of ds' "[]"] ds'(1) by simp_all
  show ?thesis
    using ds'(2,3) by (simp add: parse_exponent_def s t Let_def)
qed

lemma split_sign_sign_str:
  assumes "ip \<noteq> []" and "\<forall>c\<in>set ip. is_digit c"
  shows "split_sign (sign_str neg @ ip @ rest) = (neg, ip @ rest)"
proof -
  obtain c cs where ip: "ip = c # cs"
    using assms(1) by (cases ip) auto
  then have "is_digit c"
    using assms(2) by simp
  then show ?thesis
    using split_sign_digits [of c "cs @ rest"] by (simp add: sign_str_def ip)
qed

lemma parse_decimal_point:
  assumes "ip \<noteq> []" and "\<forall>c\<in>set ip. is_digit c" and "\<forall>c\<in>set fp. is_digit c"
  shows "parse_decimal (sign_str neg @ ip @ ''.'' @ fp) =
           Some (dec_to_float neg (digits_val (ip @ fp)) (- int (length fp)), [])"
proof -
  have a: "takeWhile is_digit (ip @ CHR ''.'' # fp) = ip"
    "dropWhile is_digit (ip @ CHR ''.'' # fp) = CHR ''.'' # fp"
    using digits_prefix [OF assms(2), of "CHR ''.'' # fp"] by (simp_all add: not_digit)
  have b: "takeWhile is_digit fp = fp" "dropWhile is_digit fp = []"
    using digits_prefix [OF assms(3), of "[]"] by simp_all
  have c: "parse_exponent [] = (0, [])"
    by (simp add: parse_exponent_def)
  show ?thesis
    using assms(1) split_sign_sign_str [OF assms(1,2), of neg "''.'' @ fp"]
    by (simp add: parse_decimal_def a b c Let_def)
qed

lemma parse_decimal_point_exp:
  assumes "ip \<noteq> []" and "\<forall>c\<in>set ip. is_digit c" and "\<forall>c\<in>set fp. is_digit c"
  shows "parse_decimal (sign_str neg @ ip @ ''.'' @ fp @ ''e'' @ exp_str x) =
           Some (dec_to_float neg (digits_val (ip @ fp)) (x - int (length fp)), [])"
proof -
  have a: "takeWhile is_digit (ip @ CHR ''.'' # fp @ CHR ''e'' # exp_str x) = ip"
    "dropWhile is_digit (ip @ CHR ''.'' # fp @ CHR ''e'' # exp_str x) =
       CHR ''.'' # fp @ CHR ''e'' # exp_str x"
    using digits_prefix [OF assms(2), of "CHR ''.'' # fp @ CHR ''e'' # exp_str x"]
    by (simp_all add: not_digit)
  have b: "takeWhile is_digit (fp @ CHR ''e'' # exp_str x) = fp"
    "dropWhile is_digit (fp @ CHR ''e'' # exp_str x) = CHR ''e'' # exp_str x"
    using digits_prefix [OF assms(3), of "CHR ''e'' # exp_str x"] by (simp_all add: not_digit)
  show ?thesis
    using assms(1) split_sign_sign_str [OF assms(1,2), of neg "''.'' @ fp @ ''e'' @ exp_str x"]
    by (simp add: parse_decimal_def a b exp_str_parse Let_def)
qed

lemma parse_decimal_exp:
  assumes "ip \<noteq> []" and "\<forall>c\<in>set ip. is_digit c"
  shows "parse_decimal (sign_str neg @ ip @ ''e'' @ exp_str x) =
           Some (dec_to_float neg (digits_val ip) x, [])"
proof -
  have a: "takeWhile is_digit (ip @ CHR ''e'' # exp_str x) = ip"
    "dropWhile is_digit (ip @ CHR ''e'' # exp_str x) = CHR ''e'' # exp_str x"
    using digits_prefix [OF assms(2), of "CHR ''e'' # exp_str x"] by (simp_all add: not_digit)
  show ?thesis
    using assms(1) split_sign_sign_str [OF assms(1,2), of neg "''e'' @ exp_str x"]
    by (simp add: parse_decimal_def a exp_str_parse Let_def)
qed

lemma exp_str_chars: "\<forall>c\<in>set (exp_str x). num_char c"
  using dec_digits_props [of "\<bar>x\<bar>"]
  by (auto simp: exp_str_def Let_def num_char_def zero_digit)

lemma last_digit:
  assumes "ds \<noteq> []" and "\<forall>c\<in>set ds. is_digit c"
  shows "last ds \<noteq> CHR ''.''"
  using assms last_in_set [of ds] digits_no_sign [of "last ds"] by blast

lemma format_repr_exp_one:
  assumes "length ds = 1" and "P \<le> - 4 \<or> 16 < P"
  shows "format_repr ds P = ds @ ''e'' @ exp_str (P - 1)"
  using assms by (auto simp: format_repr_def Let_def zeros_def)

lemma format_repr_exp_many:
  assumes "1 < length ds" and "\<forall>c\<in>set ds. is_digit c" and "P \<le> - 4 \<or> 16 < P"
  shows "format_repr ds P = take 1 ds @ ''.'' @ drop 1 ds @ ''e'' @ exp_str (P - 1)"
proof -
  have "drop 1 ds \<noteq> []"
    using assms(1) by simp
  moreover have "\<forall>c\<in>set (drop 1 ds). is_digit c"
    using assms(2) by (auto dest: in_set_dropD)
  ultimately have "last (drop 1 ds) \<noteq> CHR ''.''"
    by (rule last_digit)
  then show ?thesis
    using assms(1,3) \<open>drop 1 ds \<noteq> []\<close>
    by (auto simp: format_repr_def Let_def zeros_def max_def)
qed

lemma format_repr_small:
  assumes "ds \<noteq> []" and "\<forall>c\<in>set ds. is_digit c" and "- 4 < P" and "P \<le> 0"
  shows "format_repr ds P = ''0'' @ ''.'' @ zeros (- P) @ ds"
proof -
  have "1 \<le> int (length ds)"
    using assms(1) by (cases ds) auto
  then have "max (int (length ds)) (P + 1) = int (length ds)"
    using assms(4) by simp
  then show ?thesis
    using assms last_digit [OF assms(1,2)]
    by (simp add: format_repr_def Let_def zeros_def)
qed

lemma format_repr_inner:
  assumes "\<forall>c\<in>set ds. is_digit c" and "0 < P" and "P < int (length ds)" and "P \<le> 16"
  shows "format_repr ds P = take (nat P) ds @ ''.'' @ drop (nat P) ds"
proof -
  have "drop (nat P) ds \<noteq> []"
    using assms(2,3) by simp
  moreover have "\<forall>c\<in>set (drop (nat P) ds). is_digit c"
    using assms(1) by (auto dest: in_set_dropD)
  ultimately have "last (drop (nat P) ds) \<noteq> CHR ''.''"
    by (rule last_digit)
  moreover have "max (int (length ds)) (P + 1) = int (length ds)"
    using assms(3) by simp
  ultimately show ?thesis
    using assms(2-4) \<open>drop (nat P) ds \<noteq> []\<close>
    by (simp add: format_repr_def Let_def zeros_def)
qed

lemma format_repr_whole:
  assumes "ds \<noteq> []" and "int (length ds) \<le> P" and "P \<le> 16"
  shows "format_repr ds P = (ds @ zeros (P - int (length ds))) @ ''.'' @ ''0''"
proof -
  have "1 \<le> int (length ds)"
    using assms(1) by (cases ds) auto
  moreover have "max (int (length ds)) (P + 1) = P + 1"
    using assms(2) by simp
  ultimately show ?thesis
    using assms by (cases "P = int (length ds)") (simp_all add: format_repr_def Let_def zeros_def)
qed

lemma pw_10_m1: "of_int (x * 10) * pw 10 (- 1) = of_int x"
  by (simp add: pw_def)

lemma read_format:
  assumes "ds \<noteq> []" and "\<forall>c\<in>set ds. is_digit c"
  shows "\<exists>m k. parse_decimal (sign_str neg @ format_repr ds P) = Some (dec_to_float neg m k, []) \<and>
           of_int m * pw 10 k = of_int (digits_val ds) * pw 10 (P - int (length ds))"
    and "\<forall>c\<in>set (format_repr ds P). num_char c"
proof -
  have len: "1 \<le> length ds"
    using assms(1) by (cases ds) auto
  have dsn: "\<forall>c\<in>set ds. num_char c"
    using assms(2) by (simp add: is_digit_num_char)
  have dot: "num_char (CHR ''.'')" "num_char (CHR ''e'')" "num_char (CHR ''0'')"
    by (simp_all add: num_char_def zero_digit)
  consider (exp1) "P \<le> - 4 \<or> 16 < P" "length ds = 1"
    | (expn) "P \<le> - 4 \<or> 16 < P" "1 < length ds"
    | (small) "- 4 < P" "P \<le> 0"
    | (inner) "0 < P" "P < int (length ds)" "P \<le> 16"
    | (whole) "int (length ds) \<le> P" "P \<le> 16"
    using len by linarith
  then have "(\<exists>m k. parse_decimal (sign_str neg @ format_repr ds P) =
                 Some (dec_to_float neg m k, []) \<and>
              of_int m * pw 10 k = of_int (digits_val ds) * pw 10 (P - int (length ds))) \<and>
            (\<forall>c\<in>set (format_repr ds P). num_char c)"
  proof cases
    case exp1
    have f: "format_repr ds P = ds @ ''e'' @ exp_str (P - 1)"
      using exp1 by (rule format_repr_exp_one [rotated])
    have "parse_decimal (sign_str neg @ format_repr ds P) =
            Some (dec_to_float neg (digits_val ds) (P - 1), [])"
      unfolding f by (rule parse_decimal_exp [OF assms])
    moreover have "P - 1 = P - int (length ds)"
      using exp1(2) by simp
    moreover have "\<forall>c\<in>set (format_repr ds P). num_char c"
      unfolding f using dsn dot exp_str_chars [of "P - 1"] by auto
    ultimately show ?thesis by auto
  next
    case expn
    have f: "format_repr ds P = take 1 ds @ ''.'' @ drop 1 ds @ ''e'' @ exp_str (P - 1)"
      using expn(2) assms(2) expn(1) by (rule format_repr_exp_many)
    have t: "take 1 ds \<noteq> []" "\<forall>c\<in>set (take 1 ds). is_digit c" "\<forall>c\<in>set (drop 1 ds). is_digit c"
      using assms by (auto dest: in_set_takeD in_set_dropD)
    have "parse_decimal (sign_str neg @ format_repr ds P) =
            Some (dec_to_float neg (digits_val (take 1 ds @ drop 1 ds))
                    (P - 1 - int (length (drop 1 ds))), [])"
      unfolding f by (rule parse_decimal_point_exp [OF t])
    moreover have "P - 1 - int (length (drop 1 ds)) = P - int (length ds)"
      using expn(2) by simp
    moreover have "\<forall>c\<in>set (format_repr ds P). num_char c"
      unfolding f using dsn dot exp_str_chars [of "P - 1"]
      by (auto dest: in_set_takeD in_set_dropD)
    ultimately show ?thesis by auto
  next
    case small
    have f: "format_repr ds P = ''0'' @ ''.'' @ zeros (- P) @ ds"
      using assms small by (rule format_repr_small)
    have z: "''0'' = zeros 1"
      by (simp add: zeros_def)
    have t: "''0'' \<noteq> []" "\<forall>c\<in>set ''0''. is_digit c" "\<forall>c\<in>set (zeros (- P) @ ds). is_digit c"
      using assms(2) zeros_props(2) [of "- P"] by (auto simp: zero_digit)
    have "parse_decimal (sign_str neg @ format_repr ds P) =
            Some (dec_to_float neg (digits_val (''0'' @ zeros (- P) @ ds))
                    (- int (length (zeros (- P) @ ds))), [])"
      unfolding f by (rule parse_decimal_point [OF t])
    moreover have "digits_val (''0'' @ zeros (- P) @ ds) = digits_val ds"
      unfolding z by (simp only: digits_val_zeros_left)
    moreover have "- int (length (zeros (- P) @ ds)) = P - int (length ds)"
      using small(2) by (simp add: zeros_props(3))
    moreover have "\<forall>c\<in>set (format_repr ds P). num_char c"
      unfolding f using dsn dot zeros_props(2) [of "- P"] by (auto simp: is_digit_num_char)
    ultimately show ?thesis by auto
  next
    case inner
    have f: "format_repr ds P = take (nat P) ds @ ''.'' @ drop (nat P) ds"
      using assms(2) inner by (rule format_repr_inner)
    have t: "take (nat P) ds \<noteq> []" "\<forall>c\<in>set (take (nat P) ds). is_digit c"
      "\<forall>c\<in>set (drop (nat P) ds). is_digit c"
      using assms inner(1) by (auto dest: in_set_takeD in_set_dropD)
    have "parse_decimal (sign_str neg @ format_repr ds P) =
            Some (dec_to_float neg (digits_val (take (nat P) ds @ drop (nat P) ds))
                    (- int (length (drop (nat P) ds))), [])"
      unfolding f by (rule parse_decimal_point [OF t])
    moreover have "- int (length (drop (nat P) ds)) = P - int (length ds)"
      using inner by simp
    moreover have "\<forall>c\<in>set (format_repr ds P). num_char c"
      unfolding f using dsn dot by (auto dest: in_set_takeD in_set_dropD)
    ultimately show ?thesis by auto
  next
    case whole
    define w where "w = ds @ zeros (P - int (length ds))"
    have f: "format_repr ds P = w @ ''.'' @ ''0''"
      unfolding w_def using assms(1) whole by (rule format_repr_whole)
    have t: "w \<noteq> []" "\<forall>c\<in>set w. is_digit c" "\<forall>c\<in>set ''0''. is_digit c"
      using assms zeros_props(2) [of "P - int (length ds)"] by (auto simp: w_def zero_digit)
    have p: "parse_decimal (sign_str neg @ format_repr ds P) =
            Some (dec_to_float neg (digits_val (w @ ''0'')) (- int (length ''0'')), [])"
      unfolding f by (rule parse_decimal_point [OF t])
    define n where "n = nat (P - int (length ds))"
    have "digits_val (w @ ''0'') = digits_val w * 10"
      using digits_val_snoc [of w "CHR ''0''"] by (simp add: zero_digit)
    moreover have "digits_val w = digits_val ds * 10 ^ n"
      unfolding w_def n_def by (rule digits_val_zeros_right)
    ultimately have a: "digits_val (w @ ''0'') = (digits_val ds * 10 ^ n) * 10"
      by simp
    have "of_int (digits_val (w @ ''0'')) * pw 10 (- 1) = of_int (digits_val ds * 10 ^ n)"
      unfolding a by (rule pw_10_m1)
    also have "\<dots> = of_int (digits_val ds) * pw 10 (P - int (length ds))"
      using whole(1) by (simp add: pw_nonneg n_def)
    finally have "of_int (digits_val (w @ ''0'')) * pw 10 (- 1) =
        of_int (digits_val ds) * pw 10 (P - int (length ds))" .
    moreover have "\<forall>c\<in>set (format_repr ds P). num_char c"
      unfolding f using t dot by (auto simp: is_digit_num_char)
    ultimately show ?thesis
      using p by auto
  qed
  then show "\<exists>m k. parse_decimal (sign_str neg @ format_repr ds P) = Some (dec_to_float neg m k, []) \<and>
           of_int m * pw 10 k = of_int (digits_val ds) * pw 10 (P - int (length ds))"
    and "\<forall>c\<in>set (format_repr ds P). num_char c"
    by blast+
qed

lemma dbl_round_0: "dbl_round 0 = Fin 0"
  by (simp add: dbl_round_def)

lemma dec_to_float_is_double: "is_double (dec_to_float neg m k)"
  unfolding dec_to_float_def by (simp add: dbl_round_is_double dbl_round_0)

lemma parse_decimal_is_double: "parse_decimal s = Some (v, r) \<Longrightarrow> is_double v"
  by (auto simp: parse_decimal_def Let_def dec_to_float_is_double split: prod.splits if_splits)

lemma parse_inf_or_nan_is_double: "parse_inf_or_nan s = Some (v, r) \<Longrightarrow> is_double v"
  by (auto simp: parse_inf_or_nan_def Let_def split: prod.splits if_splits)

lemma float_of_str_is_double: "float_of_str s = Some v \<Longrightarrow> is_double v"
  by (auto simp: float_of_str_def parse_float_def
      split: option.splits prod.splits if_splits
      dest: parse_decimal_is_double parse_inf_or_nan_is_double)

lemma float_repr_Fin:
  assumes q: "is_double (Fin q)" "q \<noteq> 0"
  shows "float_of_str (float_repr (Fin q)) = Some (Fin q)"
    and "py_strip (str_delete (CHR ''$'') (float_repr (Fin q))) = float_repr (Fin q)"
proof -
  define a where "a = \<bar>q\<bar>"
  define neg where "neg \<longleftrightarrow> q < 0"
  obtain c e where ce: "shortest_dec a = (c, e)"
    by (cases "shortest_dec a")
  define ds0 where "ds0 = dec_digits c"
  define ds where "ds = strip_zeros ds0"
  define P where "P = int (length ds0) + e"
  have a0: "0 < a"
    using q(2) by (simp add: a_def)
  have da: "dbl_round a = Fin a"
    unfolding a_def using q by (rule is_double_abs)
  have rb: "dbl_round (of_int c * pw 10 e) = Fin a" and c0: "0 < c"
    using shortest_dec_reads_back [OF da a0 ce] by simp_all
  have ds0: "\<forall>c\<in>set ds0. is_digit c" "digits_val ds0 = c"
    using dec_digits_props [of c] c0 by (simp_all add: ds0_def)
  have ds: "ds \<noteq> []" "\<forall>c\<in>set ds. is_digit c"
    using strip_zeros_nonempty [of ds0] strip_zeros_digits [of ds0] ds0 c0
    by (simp_all add: ds_def)
  define z where "z = length ds0 - length ds"
  have cz: "c = digits_val ds * 10 ^ z"
    using strip_zeros_val [of ds0] ds0(2) by (simp add: ds_def z_def)
  have Pz: "P - int (length ds) = int z + e"
    using strip_zeros_length [of ds0] by (simp add: P_def z_def ds_def)
  have rp: "float_repr (Fin q) = sign_str neg @ format_repr ds P"
    using q(2) ce
    by (simp add: float_repr_def Let_def a_def [symmetric] sign_str_def neg_def ds_def ds0_def P_def)
  obtain m k where p: "parse_decimal (sign_str neg @ format_repr ds P) =
      Some (dec_to_float neg m k, [])"
    and mk: "of_int m * pw 10 k = of_int (digits_val ds) * pw 10 (P - int (length ds))"
    using read_format(1) [OF ds, of neg P] by blast
  have "of_int (digits_val ds) * pw 10 (int z + e) = of_int (digits_val ds) * (pw 10 (int z) * pw 10 e)"
    by (simp add: pw_add)
  also have "\<dots> = of_int c * pw 10 e"
    unfolding cz by (simp add: pw_nat)
  finally have val: "of_int m * pw 10 k = of_int c * pw 10 e"
    using mk Pz by simp
  have pos: "0 < of_int c * pw 10 e"
    using c0 pw_pos [of 10 e] by simp
  then have m0: "m \<noteq> 0"
    using val by auto
  have d: "dec_to_float neg m k = Fin q"
  proof (cases neg)
    case True
    then have "q = - a"
      by (simp add: neg_def a_def)
    moreover have "dbl_round (- (of_int c * pw 10 e)) = Fin (- a)"
      using dbl_round_Fin_pos(2) [OF rb a0] .
    ultimately show ?thesis
      using True m0 val by (simp add: dec_to_float_def mult.assoc)
  next
    case False
    then have "q = a"
      by (simp add: neg_def a_def)
    then show ?thesis
      using False m0 val rb by (simp add: dec_to_float_def mult.assoc)
  qed
  have chars: "\<forall>c\<in>set (sign_str neg @ format_repr ds P). num_char c"
    using read_format(2) [OF ds, of P] by (auto simp: sign_str_def num_char_def)
  show "float_of_str (float_repr (Fin q)) = Some (Fin q)"
    unfolding rp float_of_str_plain(1) [OF chars] by (simp add: parse_float_def p d)
  show "py_strip (str_delete (CHR ''$'') (float_repr (Fin q))) = float_repr (Fin q)"
    unfolding rp by (rule float_of_str_plain(2) [OF chars])
qed

lemma sanitize_amount_PFloat:
  "sanitize_amount (PFloat v) =
     (case float_of_str (py_strip (str_delete (CHR ''$'') (float_repr v))) of
        Some f \<Rightarrow> PFloat f | None \<Rightarrow> PNone)"
  by (simp add: sanitize_amount_def py_str_def)

lemma sanitize_amount_float:
  assumes "is_double v" and "\<not> is_nan v"
  shows "sanitize_amount (PFloat v) = PFloat v"
proof (cases v)
  case (Fin q)
  show ?thesis
  proof (cases "q = 0")
    case True
    have "sanitize_amount (PFloat (Fin 0)) = PFloat (Fin 0)" by code_simp
    then show ?thesis
      using Fin True by simp
  next
    case False
    then show ?thesis
      using float_repr_Fin [of q] assms Fin by (simp add: sanitize_amount_PFloat)
  qed
next
  case NegZero
  have "sanitize_amount (PFloat NegZero) = PFloat NegZero" by code_simp
  then show ?thesis using NegZero by simp
next
  case PosInf
  have "sanitize_amount (PFloat PosInf) = PFloat PosInf" by code_simp
  then show ?thesis using PosInf by simp
next
  case NegInf
  have "sanitize_amount (PFloat NegInf) = PFloat NegInf" by code_simp
  then show ?thesis using NegInf by simp
next
  case (NaN s)
  then show ?thesis using assms(2) by simp
qed

lemma sanitize_amount_nan: "sanitize_amount (PFloat (NaN s)) = PFloat (NaN False)"
proof (cases s)
  case True
  have "sanitize_amount (PFloat (NaN True)) = PFloat (NaN False)" by code_simp
  then show ?thesis using True by simp
next
  case False
  have "sanitize_amount (PFloat (NaN False)) = PFloat (NaN False)" by code_simp
  then show ?thesis using False by simp
qed

lemma sanitize_amount_is_double: "sanitize_amount x = PFloat v \<Longrightarrow> is_double v"
  by (auto simp: sanitize_amount_def Let_def split: if_splits option.splits
      dest: float_of_str_is_double)

text \<open>
  Claim C8, as amended. Normalizing a float that is not a NaN returns it unchanged:
  \<open>sanitize_amount\<close> prints it with \<^verbatim>\<open>repr\<close>, and the text reads back as the same float.
  Every float that \<open>sanitize_amount\<close> returns is a binary64 value, so
  \<open>sanitize_amount (sanitize_amount x) = sanitize_amount x\<close> whenever the result is a
  float that is not a NaN. A NaN is printed as \<^verbatim>\<open>nan\<close> and comes back as the NaN with
  the sign bit clear.
\<close>

theorem sanitize_amount_idempotent:
  "(is_double v \<and> \<not> is_nan v \<longrightarrow> sanitize_amount (PFloat v) = PFloat v) \<and>
   (sanitize_amount x = PFloat v \<and> \<not> is_nan v \<longrightarrow>
      is_double v \<and> sanitize_amount (sanitize_amount x) = sanitize_amount x) \<and>
   sanitize_amount (PFloat (NaN s)) = PFloat (NaN False)"
  using sanitize_amount_float sanitize_amount_is_double sanitize_amount_nan by auto

theorem sanitize_amount_idempotent_witness:
  "is_double (Fin (3084262057307013 / 70368744177664)) \<and>
   sanitize_amount (PStr '' $43.83 '') = PFloat (Fin (3084262057307013 / 70368744177664)) \<and>
   sanitize_amount (PFloat (Fin (3084262057307013 / 70368744177664))) =
     PFloat (Fin (3084262057307013 / 70368744177664)) \<and>
   sanitize_amount (sanitize_amount (PStr '' $43.83 '')) = sanitize_amount (PStr '' $43.83 '') \<and>
   float_repr (Fin (3084262057307013 / 70368744177664)) = ''43.83'' \<and>
   sanitize_amount (PFloat (NaN True)) = PFloat (NaN False)"
proof -
  have a: "sanitize_amount (PStr '' $43.83 '') = PFloat (Fin (3084262057307013 / 70368744177664))"
    by code_simp
  have b: "float_repr (Fin (3084262057307013 / 70368744177664)) = ''43.83''"
    by code_simp
  show ?thesis
    using a b
      sanitize_amount_idempotent [of "Fin (3084262057307013 / 70368744177664)"
        "PStr '' $43.83 ''" True]
    by simp
qed

text \<open>
  Claim C8 as stated fails at a NaN: \<open>sanitize_amount\<close> returns the NaN with the sign
  bit set for the text \<^verbatim>\<open>-nan\<close>, and for that float it returns the NaN with the sign bit
  clear.
\<close>

theorem sanitize_amount_nan_counterexample:
  "sanitize_amount (PStr ''-nan'') = PFloat (NaN True) \<and>
   sanitize_amount (sanitize_amount (PStr ''-nan'')) \<noteq> sanitize_amount (PStr ''-nan'')"
  by code_simp

end
